theory Spec2Isabelle
  imports Main "HOL-Library.Word"
begin

section \<open>Machine types of \<^verbatim>\<open>lfs_emubd.c\<close>\<close>

text \<open>
  The header \<^verbatim>\<open>emubd/lfs_emubd.h\<close> and the littlefs type declarations are not part of
  the sources at hand.  The widths below are the ones the code of \<^verbatim>\<open>lfs_emubd.c\<close> relies
  on: a block index is printed with \<^verbatim>\<open>%x\<close> and is widened by an explicit
  \<^verbatim>\<open>(uint64_t)\<close> cast before the bounds comparison, so block, offset and size are
  32-bit unsigned integers, and the total size, which the 64-bit sum is compared with,
  is a 64-bit one.  The three counters are taken as 64-bit unsigned integers as well;
  the statements about them use no more than that a counter is incremented by one.
\<close>

type_synonym byte = "8 word"
type_synonym lfs_block_t = "32 word"
type_synonym lfs_off_t = "32 word"
type_synonym lfs_size_t = "32 word"

record lfs_bd_info =
  read_size :: lfs_size_t
  prog_size :: lfs_size_t
  erase_size :: lfs_size_t
  total_size :: "64 word"

record lfs_bd_stats =
  read_count :: "64 word"
  prog_count :: "64 word"
  erase_count :: "64 word"

text \<open>
  The handle \<^verbatim>\<open>lfs_emubd_t\<close>: \<open>path\<close> is the base directory copied by
  \<^verbatim>\<open>lfs_emubd_create\<close> (the buffer up to the separator), \<open>child\<close> the part of the
  buffer behind the separator, which every operation overwrites.
\<close>

record lfs_emubd =
  path :: string
  child :: string
  info :: lfs_bd_info
  stats :: lfs_bd_stats

definition emu_path :: "lfs_emubd \<Rightarrow> string" where
  "emu_path emu = path emu @ ''/'' @ child emu"

section \<open>The file store the device is emulated on\<close>

text \<open>
  Modelled from the spec: the file-store collaborator (the C library's \<^verbatim>\<open>fopen\<close>,
  \<^verbatim>\<open>fseek\<close>, \<^verbatim>\<open>fread\<close>, \<^verbatim>\<open>fwrite\<close>, \<^verbatim>\<open>fclose\<close>, \<^verbatim>\<open>stat\<close>, \<^verbatim>\<open>unlink\<close>,
  \<^verbatim>\<open>mkdir\<close>, \<^verbatim>\<open>malloc\<close> and the variable \<^verbatim>\<open>errno\<close>) is outside the sources.  It is
  a store of entries by path name with POSIX-like behaviour.  Every call of the
  collaborator consumes one element of the script \<open>faults\<close>: \<open>Some e\<close> makes the call
  fail with \<^verbatim>\<open>errno = e\<close> and no other effect, \<open>None\<close> (or an exhausted script) lets
  it run.  A failing call sets \<open>errno\<close>; a call that succeeds leaves it as it is.
  \<open>streams\<close> counts the \<^verbatim>\<open>FILE\<close> streams that are open.  The store is flat: it
  does not tie an entry to the directory above it, so a statement about a child of a
  directory that relies on the directory says that the directory is there.  An entry
  is a regular file with its bytes or a directory; opening a directory as a file is
  refused with \<^verbatim>\<open>EISDIR\<close>.
\<close>

datatype errcode = ENOENT | EEXIST | ENOMEM | EINVAL | EISDIR | EIO | EACCES | ENOSPC

datatype entry = Reg "byte list" | Dir

record filestore =
  entries :: "string \<Rightarrow> entry option"
  streams :: nat
  errno :: "errcode option"
  faults :: "errcode option list"

record stream =
  fpath :: string
  fpos :: nat
  feof :: bool

datatype fmode = Mode_r | Mode_rb | Mode_r_plus_b | Mode_w_plus_b | Mode_w

definition next_fault :: "filestore \<Rightarrow> errcode option \<times> filestore" where
  "next_fault s = (case faults s of [] \<Rightarrow> (None, s) | x # xs \<Rightarrow> (x, s\<lparr>faults := xs\<rparr>))"

definition creates :: "fmode \<Rightarrow> bool" where
  "creates m = (m = Mode_w_plus_b \<or> m = Mode_w)"

text \<open>
  \<^verbatim>\<open>fopen\<close>: the result \<open>None\<close> is the null pointer.  The modes \<^verbatim>\<open>"w"\<close> and
  \<^verbatim>\<open>"w+b"\<close> create the file or truncate it; the others need a regular file.
\<close>

definition fopen :: "string \<Rightarrow> fmode \<Rightarrow> filestore \<Rightarrow> stream option \<times> filestore" where
  "fopen p m s =
     (case next_fault s of
        (Some e, s1) \<Rightarrow> (None, s1\<lparr>errno := Some e\<rparr>)
      | (None, s1) \<Rightarrow>
          (case entries s1 p of
             Some Dir \<Rightarrow> (None, s1\<lparr>errno := Some EISDIR\<rparr>)
           | Some (Reg c) \<Rightarrow>
               (Some \<lparr>fpath = p, fpos = 0, feof = False\<rparr>,
                s1\<lparr>entries := (if creates m then (entries s1)(p \<mapsto> Reg []) else entries s1),
                   streams := streams s1 + 1\<rparr>)
           | None \<Rightarrow>
               (if creates m
                then (Some \<lparr>fpath = p, fpos = 0, feof = False\<rparr>,
                      s1\<lparr>entries := (entries s1)(p \<mapsto> Reg []), streams := streams s1 + 1\<rparr>)
                else (None, s1\<lparr>errno := Some ENOENT\<rparr>))))"

text \<open>\<^verbatim>\<open>fseek(f, off, SEEK_SET)\<close>: the first component is true when the call failed.\<close>

definition fseek :: "stream \<Rightarrow> nat \<Rightarrow> filestore \<Rightarrow> bool \<times> stream \<times> filestore" where
  "fseek f off s =
     (case next_fault s of
        (Some e, s1) \<Rightarrow> (True, f, s1\<lparr>errno := Some e\<rparr>)
      | (None, s1) \<Rightarrow> (False, f\<lparr>fpos := off, feof := False\<rparr>, s1))"

definition contents :: "filestore \<Rightarrow> string \<Rightarrow> byte list" where
  "contents s p = (case entries s p of Some (Reg c) \<Rightarrow> c | _ \<Rightarrow> [])"

text \<open>
  \<^verbatim>\<open>fread(data, 1, count, f)\<close>: the bytes delivered; fewer than \<open>count\<close> at the end of
  the file, which sets the end-of-file indicator.
\<close>

definition fread :: "nat \<Rightarrow> stream \<Rightarrow> filestore \<Rightarrow> byte list \<times> stream \<times> filestore" where
  "fread count f s =
     (case next_fault s of
        (Some e, s1) \<Rightarrow> ([], f, s1\<lparr>errno := Some e\<rparr>)
      | (None, s1) \<Rightarrow>
          (let bytes = take count (drop (fpos f) (contents s1 (fpath f)))
           in (bytes,
               f\<lparr>fpos := fpos f + length bytes, feof := (feof f \<or> length bytes < count)\<rparr>,
               s1)))"

text \<open>
  Writing \<open>bs\<close> at position \<open>pos\<close> of a file: a gap behind the end of the file is
  filled with zero bytes, the bytes behind the written range stay.
\<close>

definition write_at :: "byte list \<Rightarrow> nat \<Rightarrow> byte list \<Rightarrow> byte list" where
  "write_at c pos bs =
     (if bs = [] then c
      else take pos c @ replicate (pos - length c) 0 @ bs @ drop (pos + length bs) c)"

text \<open>\<^verbatim>\<open>fwrite(data, 1, count, f)\<close>: the number of bytes written.\<close>

definition fwrite :: "byte list \<Rightarrow> stream \<Rightarrow> filestore \<Rightarrow> nat \<times> stream \<times> filestore" where
  "fwrite bs f s =
     (case next_fault s of
        (Some e, s1) \<Rightarrow> (0, f, s1\<lparr>errno := Some e\<rparr>)
      | (None, s1) \<Rightarrow>
          (length bs, f\<lparr>fpos := fpos f + length bs\<rparr>,
           (case entries s1 (fpath f) of
              Some (Reg c) \<Rightarrow>
                s1\<lparr>entries := (entries s1)(fpath f \<mapsto> Reg (write_at c (fpos f) bs))\<rparr>
            | _ \<Rightarrow> s1)))"

text \<open>\<^verbatim>\<open>fclose\<close>: true when it failed; the stream is gone either way.\<close>

definition fclose :: "stream \<Rightarrow> filestore \<Rightarrow> bool \<times> filestore" where
  "fclose f s =
     (case next_fault s of
        (Some e, s1) \<Rightarrow> (True, s1\<lparr>errno := Some e, streams := streams s1 - 1\<rparr>)
      | (None, s1) \<Rightarrow> (False, s1\<lparr>streams := streams s1 - 1\<rparr>))"

text \<open>\<^verbatim>\<open>stat\<close>: whether it failed, and \<^verbatim>\<open>S_ISREG(st.st_mode)\<close>.\<close>

definition stat :: "string \<Rightarrow> filestore \<Rightarrow> bool \<times> bool \<times> filestore" where
  "stat p s =
     (case next_fault s of
        (Some e, s1) \<Rightarrow> (True, False, s1\<lparr>errno := Some e\<rparr>)
      | (None, s1) \<Rightarrow>
          (case entries s1 p of
             None \<Rightarrow> (True, False, s1\<lparr>errno := Some ENOENT\<rparr>)
           | Some (Reg c) \<Rightarrow> (False, True, s1)
           | Some Dir \<Rightarrow> (False, False, s1)))"

definition unlink :: "string \<Rightarrow> filestore \<Rightarrow> bool \<times> filestore" where
  "unlink p s =
     (case next_fault s of
        (Some e, s1) \<Rightarrow> (True, s1\<lparr>errno := Some e\<rparr>)
      | (None, s1) \<Rightarrow>
          (case entries s1 p of
             None \<Rightarrow> (True, s1\<lparr>errno := Some ENOENT\<rparr>)
           | Some Dir \<Rightarrow> (True, s1\<lparr>errno := Some EISDIR\<rparr>)
           | Some (Reg c) \<Rightarrow> (False, s1\<lparr>entries := (entries s1)(p := None)\<rparr>)))"

definition mkdir :: "string \<Rightarrow> filestore \<Rightarrow> bool \<times> filestore" where
  "mkdir p s =
     (case next_fault s of
        (Some e, s1) \<Rightarrow> (True, s1\<lparr>errno := Some e\<rparr>)
      | (None, s1) \<Rightarrow>
          (case entries s1 p of
             None \<Rightarrow> (False, s1\<lparr>entries := (entries s1)(p \<mapsto> Dir)\<rparr>)
           | Some x \<Rightarrow> (True, s1\<lparr>errno := Some EEXIST\<rparr>)))"

text \<open>\<^verbatim>\<open>malloc\<close>: true when the memory was reserved.\<close>

definition malloc :: "filestore \<Rightarrow> bool \<times> filestore" where
  "malloc s =
     (case next_fault s of
        (Some e, s1) \<Rightarrow> (False, s1\<lparr>errno := Some ENOMEM\<rparr>)
      | (None, s1) \<Rightarrow> (True, s1))"

section \<open>Results of the operations\<close>

text \<open>
  The operations return \<^verbatim>\<open>0\<close> or \<^verbatim>\<open>-errno\<close>.  \<open>Undefined\<close> is the outcome of a call
  whose behaviour the C standard leaves undefined (a null stream handed to the C
  library, a remainder by zero, an access behind a caller's buffer).
\<close>

datatype retval = Zero | Neg errcode

definition neg_errno :: "filestore \<Rightarrow> retval" where
  "neg_errno s = (case errno s of None \<Rightarrow> Zero | Some e \<Rightarrow> Neg e)"

datatype 'a outcome = Returns retval 'a | Undefined


section \<open>Child names\<close>

text \<open>
  \<^verbatim>\<open>snprintf(emu->child, LFS_NAME_MAX, "%x", block)\<close>: the block index in lowercase
  hexadecimal, without leading zeros.

  Modelled from the spec: the macro \<^verbatim>\<open>LFS_NAME_MAX\<close> is not part of the sources; the
  spec names an artifact by the whole hexadecimal rendering of its index, so the
  name is not cut.
\<close>

definition hex_digit :: "nat \<Rightarrow> char" where
  "hex_digit d = ''0123456789abcdef'' ! d"

fun hex_nat :: "nat \<Rightarrow> string" where
  "hex_nat n = (if n < 16 then [hex_digit n] else hex_nat (n div 16) @ [hex_digit (n mod 16)])"

declare hex_nat.simps [simp del]

definition snprintf_x :: "lfs_block_t \<Rightarrow> string" where
  "snprintf_x block = hex_nat (unat block)"

section \<open>Validity of an access\<close>

text \<open>
  Modelled from the spec: \<^verbatim>\<open>lfs_min\<close> is declared outside the sources; it is the
  minimum of two unsigned 32-bit values.
\<close>

definition lfs_min :: "32 word \<Rightarrow> 32 word \<Rightarrow> 32 word" where
  "lfs_min a b = (if a < b then a else b)"

text \<open>
  \<^verbatim>\<open>(uint64_t)block*emu->info.erase_size + off + size < emu->info.total_size\<close>,
  computed in 64 bits.
\<close>

definition in_bounds :: "lfs_emubd \<Rightarrow> lfs_block_t \<Rightarrow> lfs_off_t \<Rightarrow> lfs_size_t \<Rightarrow> bool" where
  "in_bounds emu block off sz =
     ((ucast block :: 64 word) * ucast (erase_size (info emu)) + ucast off + ucast sz
        < total_size (info emu))"

definition access_valid :: "lfs_size_t \<Rightarrow> lfs_emubd \<Rightarrow> lfs_block_t \<Rightarrow> lfs_off_t \<Rightarrow> lfs_size_t \<Rightarrow> bool" where
  "access_valid unit emu block off sz =
     (off mod unit = 0 \<and> sz mod unit = 0 \<and> in_bounds emu block off sz)"

section \<open>\<^verbatim>\<open>lfs_emubd_read\<close>\<close>

type_synonym read_state =
  "lfs_emubd \<times> filestore \<times> lfs_block_t \<times> lfs_off_t \<times> lfs_size_t \<times> byte list \<times> nat"

type_synonym read_result = "(byte list \<times> lfs_emubd \<times> filestore) outcome"

text \<open>\<^verbatim>\<open>memset(data, 0, size)\<close> on the caller's buffer.\<close>

definition memset_zero :: "byte list \<Rightarrow> nat \<Rightarrow> byte list" where
  "memset_zero buf n = replicate n 0 @ drop n buf"

text \<open>The bytes \<open>bs\<close> stored into the caller's buffer at \<open>data = buffer + pos\<close>.\<close>

definition store_bytes :: "byte list \<Rightarrow> nat \<Rightarrow> byte list \<Rightarrow> byte list" where
  "store_bytes buf pos bs = take pos buf @ bs @ drop (pos + length bs) buf"

text \<open>
  One turn of the loop of \<^verbatim>\<open>lfs_emubd_read\<close>: \<open>Inl\<close> is a \<^verbatim>\<open>return\<close> from inside
  the loop, \<open>Inr\<close> the variables after the turn.  \<open>pos\<close> is the distance of the
  moving pointer \<^verbatim>\<open>data\<close> from \<^verbatim>\<open>buffer\<close>.
\<close>

definition read_block ::
  "lfs_emubd \<Rightarrow> filestore \<Rightarrow> lfs_block_t \<Rightarrow> lfs_off_t \<Rightarrow> lfs_size_t \<Rightarrow> byte list \<Rightarrow> nat
     \<Rightarrow> read_result + read_state" where
  "read_block emu s block off sz buf pos =
     (let emu1 = emu\<lparr>child := snprintf_x block\<rparr>;
          count = lfs_min (erase_size (info emu1) - off) sz;
          (f, s1) = fopen (emu_path emu1) Mode_rb s
      in case f of
           None \<Rightarrow>
             (if errno s1 \<noteq> Some ENOENT then Inl (Returns (neg_errno s1) (buf, emu1, s1))
              else Inr (emu1, s1, block + 1, 0, sz - count, buf, pos + unat count))
         | Some f0 \<Rightarrow>
             (let (err, f1, s2) = fseek f0 (unat off) s1
              in if err then Inl (Returns (neg_errno s2) (buf, emu1, s2))
                 else
                   (let (bytes, f2, s3) = fread (unat count) f1 s2;
                        buf1 = store_bytes buf pos bytes
                    in if length bytes < unat count \<and> \<not> feof f2
                       then Inl (Returns (neg_errno s3) (buf1, emu1, s3))
                       else
                         (let (err, s4) = fclose f2 s3
                          in if err then Inl (Returns (neg_errno s4) (buf1, emu1, s4))
                             else Inr (emu1, s4, block + 1, 0, sz - count, buf1,
                                       pos + unat count)))))"

partial_function (option) read_loop ::
  "lfs_emubd \<Rightarrow> filestore \<Rightarrow> lfs_block_t \<Rightarrow> lfs_off_t \<Rightarrow> lfs_size_t \<Rightarrow> byte list \<Rightarrow> nat
     \<Rightarrow> (read_result + read_state) option" where
  "read_loop emu s block off sz buf pos =
     (if sz > 0 then
        (case read_block emu s block off sz buf pos of
           Inl r \<Rightarrow> Some (Inl r)
         | Inr (emu', s', block', off', sz', buf', pos') \<Rightarrow>
             read_loop emu' s' block' off' sz' buf' pos')
      else Some (Inr (emu, s, block, off, sz, buf, pos)))"

text \<open>The result \<open>None\<close> is a call that does not return.\<close>

definition lfs_emubd_read ::
  "lfs_emubd \<Rightarrow> filestore \<Rightarrow> lfs_block_t \<Rightarrow> lfs_off_t \<Rightarrow> lfs_size_t \<Rightarrow> byte list
     \<Rightarrow> read_result option" where
  "lfs_emubd_read emu s block off sz buffer =
     (if read_size (info emu) = 0 then Some Undefined
      else if \<not> access_valid (read_size (info emu)) emu block off sz
      then Some (Returns (Neg EINVAL) (buffer, emu, s))
      else if length buffer < unat sz then Some Undefined
      else
        (case read_loop emu s block off sz (memset_zero buffer (unat sz)) 0 of
           None \<Rightarrow> None
         | Some (Inl r) \<Rightarrow> Some r
         | Some (Inr (emu', s', block', off', sz', buf', pos')) \<Rightarrow>
             Some (Returns Zero
               (buf',
                emu'\<lparr>stats := (stats emu')\<lparr>read_count := read_count (stats emu') + 1\<rparr>\<rparr>,
                s'))))"

section \<open>\<^verbatim>\<open>lfs_emubd_prog\<close>\<close>

type_synonym prog_state =
  "lfs_emubd \<times> filestore \<times> lfs_block_t \<times> lfs_off_t \<times> lfs_size_t \<times> nat"

type_synonym dev_result = "(lfs_emubd \<times> filestore) outcome"

text \<open>
  One turn of the loop of \<^verbatim>\<open>lfs_emubd_prog\<close>.  When the first \<^verbatim>\<open>fopen\<close> fails for
  another reason than \<^verbatim>\<open>ENOENT\<close>, the null stream reaches \<^verbatim>\<open>fseek\<close>.
\<close>

definition prog_block ::
  "lfs_emubd \<Rightarrow> filestore \<Rightarrow> lfs_block_t \<Rightarrow> lfs_off_t \<Rightarrow> lfs_size_t \<Rightarrow> byte list \<Rightarrow> nat
     \<Rightarrow> dev_result + prog_state" where
  "prog_block emu s block off sz data pos =
     (let emu1 = emu\<lparr>child := snprintf_x block\<rparr>;
          count = lfs_min (erase_size (info emu1) - off) sz;
          (f, s1) = fopen (emu_path emu1) Mode_r_plus_b s;
          (f', s2) = (if f = None \<and> errno s1 = Some ENOENT
                      then fopen (emu_path emu1) Mode_w_plus_b s1 else (f, s1))
      in if f = None \<and> errno s1 = Some ENOENT \<and> f' = None
         then Inl (Returns (neg_errno s2) (emu1, s2))
         else
           (case f' of
              None \<Rightarrow> Inl Undefined
            | Some f0 \<Rightarrow>
                (let (err, f1, s3) = fseek f0 (unat off) s2
                 in if err then Inl (Returns (neg_errno s3) (emu1, s3))
                    else if length data < pos + unat count then Inl Undefined
                    else
                      (let (res, f2, s4) = fwrite (take (unat count) (drop pos data)) f1 s3
                       in if res < unat count then Inl (Returns (neg_errno s4) (emu1, s4))
                          else
                            (let (err, s5) = fclose f2 s4
                             in if err then Inl (Returns (neg_errno s5) (emu1, s5))
                                else Inr (emu1, s5, block + 1, 0, sz - count,
                                          pos + unat count))))))"

partial_function (option) prog_loop ::
  "lfs_emubd \<Rightarrow> filestore \<Rightarrow> lfs_block_t \<Rightarrow> lfs_off_t \<Rightarrow> lfs_size_t \<Rightarrow> byte list \<Rightarrow> nat
     \<Rightarrow> (dev_result + prog_state) option" where
  "prog_loop emu s block off sz data pos =
     (if sz > 0 then
        (case prog_block emu s block off sz data pos of
           Inl r \<Rightarrow> Some (Inl r)
         | Inr (emu', s', block', off', sz', pos') \<Rightarrow>
             prog_loop emu' s' block' off' sz' data pos')
      else Some (Inr (emu, s, block, off, sz, pos)))"

definition lfs_emubd_prog ::
  "lfs_emubd \<Rightarrow> filestore \<Rightarrow> lfs_block_t \<Rightarrow> lfs_off_t \<Rightarrow> lfs_size_t \<Rightarrow> byte list
     \<Rightarrow> dev_result option" where
  "lfs_emubd_prog emu s block off sz buffer =
     (if prog_size (info emu) = 0 then Some Undefined
      else if \<not> access_valid (prog_size (info emu)) emu block off sz
      then Some (Returns (Neg EINVAL) (emu, s))
      else
        (case prog_loop emu s block off sz buffer 0 of
           None \<Rightarrow> None
         | Some (Inl r) \<Rightarrow> Some r
         | Some (Inr (emu', s', block', off', sz', pos')) \<Rightarrow>
             Some (Returns Zero
               (emu'\<lparr>stats := (stats emu')\<lparr>prog_count := prog_count (stats emu') + 1\<rparr>\<rparr>,
                s'))))"

section \<open>\<^verbatim>\<open>lfs_emubd_erase\<close>\<close>

type_synonym erase_state =
  "lfs_emubd \<times> filestore \<times> lfs_block_t \<times> lfs_off_t \<times> lfs_size_t"

definition erase_block ::
  "lfs_emubd \<Rightarrow> filestore \<Rightarrow> lfs_block_t \<Rightarrow> lfs_off_t \<Rightarrow> lfs_size_t
     \<Rightarrow> dev_result + erase_state" where
  "erase_block emu s block off sz =
     (let emu1 = emu\<lparr>child := snprintf_x block\<rparr>;
          (err, isreg, s1) = stat (emu_path emu1) s
      in if err \<and> errno s1 \<noteq> Some ENOENT then Inl (Returns (neg_errno s1) (emu1, s1))
         else
           (let (err', s2) = (if \<not> err \<and> isreg then unlink (emu_path emu1) s1
                              else (False, s1))
            in if err' then Inl (Returns (neg_errno s2) (emu1, s2))
               else Inr (emu1, s2, block + 1, 0, sz - erase_size (info emu1))))"

partial_function (option) erase_loop ::
  "lfs_emubd \<Rightarrow> filestore \<Rightarrow> lfs_block_t \<Rightarrow> lfs_off_t \<Rightarrow> lfs_size_t
     \<Rightarrow> (dev_result + erase_state) option" where
  "erase_loop emu s block off sz =
     (if sz > 0 then
        (case erase_block emu s block off sz of
           Inl r \<Rightarrow> Some (Inl r)
         | Inr (emu', s', block', off', sz') \<Rightarrow> erase_loop emu' s' block' off' sz')
      else Some (Inr (emu, s, block, off, sz)))"

definition lfs_emubd_erase ::
  "lfs_emubd \<Rightarrow> filestore \<Rightarrow> lfs_block_t \<Rightarrow> lfs_off_t \<Rightarrow> lfs_size_t \<Rightarrow> dev_result option" where
  "lfs_emubd_erase emu s block off sz =
     (if erase_size (info emu) = 0 then Some Undefined
      else if \<not> access_valid (erase_size (info emu)) emu block off sz
      then Some (Returns (Neg EINVAL) (emu, s))
      else
        (case erase_loop emu s block off sz of
           None \<Rightarrow> None
         | Some (Inl r) \<Rightarrow> Some r
         | Some (Inr (emu', s', block', off', sz')) \<Rightarrow>
             Some (Returns Zero
               (emu'\<lparr>stats := (stats emu')\<lparr>erase_count := erase_count (stats emu') + 1\<rparr>\<rparr>,
                s'))))"


section \<open>The persisted records\<close>

text \<open>
  Modelled from the spec: the layout of \<^verbatim>\<open>struct lfs_bd_info\<close> and
  \<^verbatim>\<open>struct lfs_bd_stats\<close> is declared outside the sources.  The records are written
  and read back as their native images: here little-endian, the three 64-bit counters
  in 24 bytes, the three 32-bit sizes, four bytes of padding and the 64-bit total
  size in 24 bytes.
\<close>

fun le_nat :: "byte list \<Rightarrow> nat" where
  "le_nat [] = 0"
| "le_nat (b # bs) = unat b + 256 * le_nat bs"

fun nat_le :: "nat \<Rightarrow> nat \<Rightarrow> byte list" where
  "nat_le 0 k = []"
| "nat_le (Suc n) k = of_nat (k mod 256) # nat_le n (k div 256)"

definition le64 :: "byte list \<Rightarrow> 64 word" where
  "le64 bs = of_nat (le_nat bs)"

definition bytes_le64 :: "64 word \<Rightarrow> byte list" where
  "bytes_le64 w = nat_le 8 (unat w)"

definition bytes_le32 :: "32 word \<Rightarrow> byte list" where
  "bytes_le32 w = nat_le 4 (unat w)"

text \<open>\<^verbatim>\<open>sizeof(emu->stats)\<close>\<close>

definition sizeof_stats :: nat where
  "sizeof_stats = 24"

definition stats_of_bytes :: "byte list \<Rightarrow> lfs_bd_stats" where
  "stats_of_bytes bs =
     \<lparr>read_count = le64 (take 8 bs), prog_count = le64 (take 8 (drop 8 bs)),
      erase_count = le64 (take 8 (drop 16 bs))\<rparr>"

definition bytes_of_stats :: "lfs_bd_stats \<Rightarrow> byte list" where
  "bytes_of_stats st =
     bytes_le64 (read_count st) @ bytes_le64 (prog_count st) @ bytes_le64 (erase_count st)"

definition bytes_of_info :: "lfs_bd_info \<Rightarrow> byte list" where
  "bytes_of_info geo =
     bytes_le32 (read_size geo) @ bytes_le32 (prog_size geo) @ bytes_le32 (erase_size geo) @
     replicate 4 0 @ bytes_le64 (total_size geo)"

section \<open>\<^verbatim>\<open>lfs_emubd_create\<close>\<close>

definition zero_info :: lfs_bd_info where
  "zero_info = \<lparr>read_size = 0, prog_size = 0, erase_size = 0, total_size = 0\<rparr>"

definition zero_stats :: lfs_bd_stats where
  "zero_stats = \<lparr>read_count = 0, prog_count = 0, erase_count = 0\<rparr>"

text \<open>
  \<open>config\<close> holds the values of the macros \<^verbatim>\<open>LFS_EMUBD_READ_SIZE\<close>,
  \<^verbatim>\<open>LFS_EMUBD_PROG_SIZE\<close>, \<^verbatim>\<open>LFS_EMUBD_ERASE_SIZE\<close> and \<^verbatim>\<open>LFS_EMUBD_TOTAL_SIZE\<close>,
  which are defined outside the sources.  \<^verbatim>\<open>fread(&emu->stats, sizeof(emu->stats), 1, f)\<close>
  delivers one item or none; the bytes of an incomplete item are stored over the
  zeroed record.  None of the \<^verbatim>\<open>return\<close>s closes the stream.
\<close>

definition lfs_emubd_create ::
  "lfs_bd_info \<Rightarrow> lfs_emubd \<Rightarrow> filestore \<Rightarrow> string \<Rightarrow> dev_result" where
  "lfs_emubd_create config emu s p =
     (let emu1 = emu\<lparr>info := zero_info, stats := zero_stats\<rparr>;
          (ok, s1) = malloc s
      in if \<not> ok then Returns (Neg ENOMEM) (emu1, s1)
         else
           (let emu2 = emu1\<lparr>path := p, child := []\<rparr>;
                (err, s2) = mkdir p s1
            in if err \<and> errno s2 \<noteq> Some EEXIST then Returns (neg_errno s2) (emu2, s2)
               else
                 (let emu3 = emu2\<lparr>info := config\<rparr>;
                      emu4 = emu3\<lparr>child := ''stats''\<rparr>;
                      (f, s3) = fopen (emu_path emu4) Mode_r s2
                  in case f of
                       None \<Rightarrow> Returns (neg_errno s3) (emu4, s3)
                     | Some f0 \<Rightarrow>
                         (let (bytes, f1, s4) = fread sizeof_stats f0 s3;
                              emu5 = emu4\<lparr>stats := stats_of_bytes
                                (bytes @ replicate (sizeof_stats - length bytes) 0)\<rparr>
                          in if length bytes < sizeof_stats
                             then Returns (neg_errno s4) (emu5, s4)
                             else
                               (let (err, s5) = fclose f1 s4
                                in if err then Returns (neg_errno s5) (emu5, s5)
                                   else Returns Zero (emu5, s5))))))"

section \<open>\<^verbatim>\<open>lfs_emubd_sync\<close>\<close>

definition lfs_emubd_sync :: "lfs_emubd \<Rightarrow> filestore \<Rightarrow> dev_result" where
  "lfs_emubd_sync emu s =
     (let emu1 = emu\<lparr>child := ''info''\<rparr>;
          (f, s1) = fopen (emu_path emu1) Mode_w s
      in case f of
           None \<Rightarrow> Returns (neg_errno s1) (emu1, s1)
         | Some f0 \<Rightarrow>
             (let (res, f1, s2) = fwrite (bytes_of_info (info emu1)) f0 s1
              in if res < length (bytes_of_info (info emu1))
                 then Returns (neg_errno s2) (emu1, s2)
                 else
                   (let (err, s3) = fclose f1 s2
                    in if err then Returns (neg_errno s3) (emu1, s3)
                       else
                         (let emu2 = emu1\<lparr>child := ''stats''\<rparr>;
                              (g, s4) = fopen (emu_path emu2) Mode_w s3
                          in case g of
                               None \<Rightarrow> Returns (neg_errno s4) (emu2, s4)
                             | Some g0 \<Rightarrow>
                                 (let (res', g1, s5) =
                                        fwrite (bytes_of_stats (stats emu2)) g0 s4
                                  in if res' < length (bytes_of_stats (stats emu2))
                                     then Returns (neg_errno s5) (emu2, s5)
                                     else
                                       (let (err', s6) = fclose g1 s5
                                        in if err' then Returns (neg_errno s6) (emu2, s6)
                                           else Returns Zero (emu2, s6)))))))"

section \<open>Notions for the statements\<close>

text \<open>
  An access is rejected when the offset or the size is not a multiple of the unit, or
  when the end address \<open>block * erase_size + off + size\<close> reaches the total size.
\<close>

definition rejected ::
  "lfs_size_t \<Rightarrow> lfs_emubd \<Rightarrow> lfs_block_t \<Rightarrow> lfs_off_t \<Rightarrow> lfs_size_t \<Rightarrow> bool" where
  "rejected unit emu block off sz =
     (unat off mod unat unit \<noteq> 0 \<or> unat sz mod unat unit \<noteq> 0 \<or>
      unat (total_size (info emu))
        \<le> unat block * unat (erase_size (info emu)) + unat off + unat sz)"

text \<open>
  What holds of the counters and of the number of open streams when a loop is left,
  whatever the collaborator does: a \<^verbatim>\<open>return\<close> from inside the loop has a nonzero
  value and at most one stream more is open; after a complete turn the number of
  open streams is as before.
\<close>

definition read_post :: "lfs_bd_stats \<Rightarrow> nat \<Rightarrow> read_result + read_state \<Rightarrow> bool" where
  "read_post st n res =
     (case res of
        Inl (Returns r (buf', emu', s')) \<Rightarrow>
          r \<noteq> Zero \<and> stats emu' = st \<and> (streams s' = n \<or> streams s' = n + 1)
      | Inl Undefined \<Rightarrow> False
      | Inr (emu', s', rest) \<Rightarrow> stats emu' = st \<and> streams s' = n)"

definition dev_post ::
  "lfs_bd_stats \<Rightarrow> nat \<Rightarrow> dev_result + lfs_emubd \<times> filestore \<times> 'a \<Rightarrow> bool" where
  "dev_post st n res =
     (case res of
        Inl (Returns r (emu', s')) \<Rightarrow>
          r \<noteq> Zero \<and> stats emu' = st \<and> (streams s' = n \<or> streams s' = n + 1)
      | Inl Undefined \<Rightarrow> True
      | Inr (emu', s', rest) \<Rightarrow> stats emu' = st \<and> streams s' = n)"

text \<open>The path of the artifact of a block, as the operations build it.\<close>

definition block_file :: "string \<Rightarrow> lfs_block_t \<Rightarrow> string" where
  "block_file dir b = dir @ ''/'' @ snprintf_x b"

text \<open>No entry under the name of a block is a directory.\<close>

definition regular :: "string \<Rightarrow> filestore \<Rightarrow> bool" where
  "regular dir s = (\<forall>b. entries s (block_file dir b) \<noteq> Some Dir)"

text \<open>The byte \<open>i\<close> of an artifact with the contents \<open>c\<close>, or \<open>d\<close> behind its end.\<close>

definition byte_or :: "byte list \<Rightarrow> nat \<Rightarrow> byte \<Rightarrow> byte" where
  "byte_or c i d = (if i < length c then c ! i else d)"

text \<open>
  The walk of \<^verbatim>\<open>lfs_emubd_read\<close> and \<^verbatim>\<open>lfs_emubd_prog\<close> over the blocks: the first turn
  handles \<open>chunk0\<close> bytes of the block \<open>block\<close> from the offset \<open>off\<close>, every further
  turn handles the next block from its start.  The byte \<open>j\<close> of the caller's buffer
  belongs to the position \<open>walk_offset\<close> of the artifact of the block \<open>walk_block\<close>.
\<close>

definition chunk0 :: "lfs_size_t \<Rightarrow> lfs_off_t \<Rightarrow> lfs_size_t \<Rightarrow> nat" where
  "chunk0 es off sz = unat (lfs_min (es - off) sz)"

definition walk_block ::
  "lfs_size_t \<Rightarrow> lfs_block_t \<Rightarrow> lfs_off_t \<Rightarrow> lfs_size_t \<Rightarrow> nat \<Rightarrow> lfs_block_t" where
  "walk_block es block off sz j =
     (if j < chunk0 es off sz then block
      else block + 1 + of_nat ((j - chunk0 es off sz) div unat es))"

definition walk_offset :: "lfs_size_t \<Rightarrow> lfs_off_t \<Rightarrow> lfs_size_t \<Rightarrow> nat \<Rightarrow> nat" where
  "walk_offset es off sz j =
     (if j < chunk0 es off sz then unat off + j else (j - chunk0 es off sz) mod unat es)"

section \<open>Concrete devices and stores\<close>

text \<open>
  The geometry of the scenarios of the specification: 4 blocks of 512 bytes, read and
  programmed in units of 16 bytes; and a small one, 8 blocks of 2 bytes.
\<close>

definition emu_2k :: lfs_emubd where
  "emu_2k =
     \<lparr>path = ''bd'', child = [],
      info = \<lparr>read_size = 16, prog_size = 16, erase_size = 512, total_size = 2048\<rparr>,
      stats = \<lparr>read_count = 0, prog_count = 0, erase_count = 0\<rparr>\<rparr>"

definition emu_small :: lfs_emubd where
  "emu_small =
     \<lparr>path = ''bd'', child = [],
      info = \<lparr>read_size = 1, prog_size = 1, erase_size = 2, total_size = 16\<rparr>,
      stats = \<lparr>read_count = 0, prog_count = 0, erase_count = 0\<rparr>\<rparr>"

definition store_empty :: filestore where
  "store_empty = \<lparr>entries = Map.empty, streams = 0, errno = None, faults = []\<rparr>"

definition store_block0 :: filestore where
  "store_block0 =
     \<lparr>entries = [''bd/0'' \<mapsto> Reg [1, 2, 3]], streams = 0, errno = None, faults = []\<rparr>"

definition store_two :: filestore where
  "store_two =
     \<lparr>entries = [''bd/0'' \<mapsto> Reg [1, 2, 3], ''bd/1'' \<mapsto> Reg [4, 5, 6]], streams = 0,
      errno = None, faults = []\<rparr>"

definition store_short :: filestore where
  "store_short =
     \<lparr>entries = [''bd/0'' \<mapsto> Reg [5]], streams = 0, errno = None, faults = []\<rparr>"

definition store_pair :: filestore where
  "store_pair =
     \<lparr>entries = [''bd/0'' \<mapsto> Reg [1, 2]], streams = 0, errno = None, faults = []\<rparr>"

definition store_stats :: "byte list \<Rightarrow> filestore" where
  "store_stats c =
     \<lparr>entries = [''bd'' \<mapsto> Dir, ''bd/stats'' \<mapsto> Reg c], streams = 0, errno = None,
      faults = []\<rparr>"

definition stats_579 :: "byte list" where
  "stats_579 = [5, 0, 0, 0, 0, 0, 0, 0, 7, 0, 0, 0, 0, 0, 0, 0, 9, 1, 0, 0, 0, 0, 0, 0]"

section \<open>The bounds check in natural numbers\<close>

lemma unat32_bound: "unat (w :: 32 word) < 4294967296"
proof -
  have "unat w < 2 ^ LENGTH(32)" by (rule unsigned_less)
  then show ?thesis by simp
qed

lemma unat_ucast_32_64: "unat (ucast (w :: 32 word) :: 64 word) = unat w"
proof -
  have "unat w < 2 ^ 32" using unat32_bound [of w] by simp
  then have "unat w < (2 :: nat) ^ 64" by simp
  then show ?thesis by (simp add: unsigned_ucast_eq take_bit_nat_eq_self)
qed

lemma address_no_overflow:
  fixes block off sz es :: "32 word"
  shows "unat block * unat es + unat off + unat sz < 2 ^ 64"
proof -
  have b: "unat block \<le> 2 ^ 32 - 1" "unat es \<le> 2 ^ 32 - 1" "unat off \<le> 2 ^ 32 - 1"
    "unat sz \<le> 2 ^ 32 - 1"
    using unat32_bound [of block] unat32_bound [of es] unat32_bound [of off]
      unat32_bound [of sz] by simp_all
  have "unat block * unat es \<le> (2 ^ 32 - 1) * (2 ^ 32 - 1)"
    using b(1,2) by (rule mult_le_mono)
  with b(3,4) show ?thesis by simp
qed

text \<open>The 64-bit sum of the bounds check never wraps around.\<close>

lemma in_bounds_nat:
  "in_bounds emu block off sz \<longleftrightarrow>
     unat block * unat (erase_size (info emu)) + unat off + unat sz
       < unat (total_size (info emu))"
proof -
  let ?es = "erase_size (info emu)"
  have lt: "unat block * unat ?es + unat off + unat sz < 2 ^ 64"
    by (rule address_no_overflow)
  have m: "unat ((ucast block :: 64 word) * ucast ?es) = unat block * unat ?es"
    using lt by (simp add: unat_word_ariths unat_ucast_32_64)
  have "unat ((ucast block :: 64 word) * ucast ?es + ucast off) =
      unat ((ucast block :: 64 word) * ucast ?es) + unat (ucast off :: 64 word)"
    using lt by (intro unat_add_lem [THEN iffD1]) (simp add: m unat_ucast_32_64)
  then have a: "unat ((ucast block :: 64 word) * ucast ?es + ucast off) =
      unat block * unat ?es + unat off"
    by (simp add: m unat_ucast_32_64)
  have "unat ((ucast block :: 64 word) * ucast ?es + ucast off + ucast sz) =
      unat ((ucast block :: 64 word) * ucast ?es + ucast off) + unat (ucast sz :: 64 word)"
    using lt by (intro unat_add_lem [THEN iffD1]) (simp add: a unat_ucast_32_64)
  then have "unat ((ucast block :: 64 word) * ucast ?es + ucast off + ucast sz) =
      unat block * unat ?es + unat off + unat sz"
    by (simp add: a unat_ucast_32_64)
  then show ?thesis by (simp add: in_bounds_def word_less_nat_alt)
qed

lemma aligned_nat: "(off :: 32 word) mod g = 0 \<longleftrightarrow> unat off mod unat g = 0"
  by (metis unat_mod unat_0_iff)

lemma rejected_iff:
  "rejected unit emu block off sz \<longleftrightarrow> \<not> access_valid unit emu block off sz"
  by (auto simp: rejected_def access_valid_def in_bounds_nat aligned_nat)

section \<open>The loops on an empty range\<close>

lemma read_loop_zero:
  "read_loop emu s block off 0 buf pos = Some (Inr (emu, s, block, off, 0, buf, pos))"
  by (subst read_loop.simps) simp

lemma prog_loop_zero:
  "prog_loop emu s block off 0 data pos = Some (Inr (emu, s, block, off, 0, pos))"
  by (subst prog_loop.simps) simp

lemma erase_loop_zero:
  "erase_loop emu s block off 0 = Some (Inr (emu, s, block, off, 0))"
  by (subst erase_loop.simps) simp

section \<open>Rejected accesses\<close>

text \<open>
  C2: a read, program or erase whose offset or size is not a multiple of the
  operation's unit, or whose end address reaches or exceeds the total size, returns
  \<^verbatim>\<open>-EINVAL\<close>; the handle (with its three counters) and the file store (entries, open
  streams, \<^verbatim>\<open>errno\<close>, and the script of the collaborator's calls, none of which is
  consumed) are as before, and so is the caller's buffer.
\<close>

theorem invalid_access_rejected:
  "(read_size (info emu) \<noteq> 0 \<and> rejected (read_size (info emu)) emu block off sz \<longrightarrow>
      lfs_emubd_read emu s block off sz buffer =
        Some (Returns (Neg EINVAL) (buffer, emu, s))) \<and>
   (prog_size (info emu) \<noteq> 0 \<and> rejected (prog_size (info emu)) emu block off sz \<longrightarrow>
      lfs_emubd_prog emu s block off sz buffer = Some (Returns (Neg EINVAL) (emu, s))) \<and>
   (erase_size (info emu) \<noteq> 0 \<and> rejected (erase_size (info emu)) emu block off sz \<longrightarrow>
      lfs_emubd_erase emu s block off sz = Some (Returns (Neg EINVAL) (emu, s)))"
  by (simp add: lfs_emubd_read_def lfs_emubd_prog_def lfs_emubd_erase_def rejected_iff)

text \<open>
  At offset 1 the three operations are rejected; so is the read of the last 16 bytes
  of the device, whose end address is the total size 2048.
\<close>

theorem invalid_access_rejected_witness:
  "read_size (info emu_2k) \<noteq> 0 \<and> rejected (read_size (info emu_2k)) emu_2k 0 1 16 \<and>
   prog_size (info emu_2k) \<noteq> 0 \<and> rejected (prog_size (info emu_2k)) emu_2k 0 1 16 \<and>
   erase_size (info emu_2k) \<noteq> 0 \<and> rejected (erase_size (info emu_2k)) emu_2k 0 1 16 \<and>
   rejected (read_size (info emu_2k)) emu_2k 3 496 16 \<and>
   lfs_emubd_read emu_2k store_empty 0 1 16 (replicate 16 1) =
     Some (Returns (Neg EINVAL) (replicate 16 1, emu_2k, store_empty)) \<and>
   lfs_emubd_prog emu_2k store_empty 0 1 16 (replicate 16 1) =
     Some (Returns (Neg EINVAL) (emu_2k, store_empty)) \<and>
   lfs_emubd_erase emu_2k store_empty 0 1 16 =
     Some (Returns (Neg EINVAL) (emu_2k, store_empty)) \<and>
   lfs_emubd_read emu_2k store_empty 3 496 16 (replicate 16 1) =
     Some (Returns (Neg EINVAL) (replicate 16 1, emu_2k, store_empty))"
proof -
  have h: "read_size (info emu_2k) \<noteq> 0" "prog_size (info emu_2k) \<noteq> 0"
    "erase_size (info emu_2k) \<noteq> 0"
    "rejected (read_size (info emu_2k)) emu_2k 0 1 16"
    "rejected (prog_size (info emu_2k)) emu_2k 0 1 16"
    "rejected (erase_size (info emu_2k)) emu_2k 0 1 16"
    "rejected (read_size (info emu_2k)) emu_2k 3 496 16"
    by (simp_all add: emu_2k_def rejected_def)
  show ?thesis
    using h invalid_access_rejected [of emu_2k 0 1 16 store_empty "replicate 16 1"]
      invalid_access_rejected [of emu_2k 3 496 16 store_empty "replicate 16 1"]
    by simp
qed

section \<open>Accesses of size zero\<close>

text \<open>
  C10: a read, program or erase of size 0 at an aligned offset within the bounds
  returns 0 without a call of the file store (the store, with the script of its
  calls, is as before, and so is the buffer) and adds exactly 1 to its counter.
\<close>

theorem zero_size_access:
  "(read_size (info emu) \<noteq> 0 \<and> unat off mod unat (read_size (info emu)) = 0 \<and>
    unat block * unat (erase_size (info emu)) + unat off < unat (total_size (info emu)) \<longrightarrow>
      lfs_emubd_read emu s block off 0 buffer =
        Some (Returns Zero (buffer,
          emu\<lparr>stats := (stats emu)\<lparr>read_count := read_count (stats emu) + 1\<rparr>\<rparr>, s))) \<and>
   (prog_size (info emu) \<noteq> 0 \<and> unat off mod unat (prog_size (info emu)) = 0 \<and>
    unat block * unat (erase_size (info emu)) + unat off < unat (total_size (info emu)) \<longrightarrow>
      lfs_emubd_prog emu s block off 0 buffer =
        Some (Returns Zero
          (emu\<lparr>stats := (stats emu)\<lparr>prog_count := prog_count (stats emu) + 1\<rparr>\<rparr>, s))) \<and>
   (erase_size (info emu) \<noteq> 0 \<and> unat off mod unat (erase_size (info emu)) = 0 \<and>
    unat block * unat (erase_size (info emu)) + unat off < unat (total_size (info emu)) \<longrightarrow>
      lfs_emubd_erase emu s block off 0 =
        Some (Returns Zero
          (emu\<lparr>stats := (stats emu)\<lparr>erase_count := erase_count (stats emu) + 1\<rparr>\<rparr>, s)))"
  by (simp add: lfs_emubd_read_def lfs_emubd_prog_def lfs_emubd_erase_def
      access_valid_def in_bounds_nat aligned_nat read_loop_zero prog_loop_zero erase_loop_zero
      memset_zero_def)

theorem zero_size_access_witness:
  "read_size (info emu_2k) \<noteq> 0 \<and> prog_size (info emu_2k) \<noteq> 0 \<and>
   erase_size (info emu_2k) \<noteq> 0 \<and>
   unat (512 :: 32 word) mod unat (read_size (info emu_2k)) = 0 \<and>
   unat (512 :: 32 word) mod unat (prog_size (info emu_2k)) = 0 \<and>
   unat (512 :: 32 word) mod unat (erase_size (info emu_2k)) = 0 \<and>
   unat (1 :: 32 word) * unat (erase_size (info emu_2k)) + unat (512 :: 32 word)
     < unat (total_size (info emu_2k)) \<and>
   lfs_emubd_read emu_2k store_empty 1 512 0 [7] =
     Some (Returns Zero ([7],
       emu_2k\<lparr>stats := \<lparr>read_count = 1, prog_count = 0, erase_count = 0\<rparr>\<rparr>, store_empty)) \<and>
   lfs_emubd_prog emu_2k store_empty 1 512 0 [7] =
     Some (Returns Zero
       (emu_2k\<lparr>stats := \<lparr>read_count = 0, prog_count = 1, erase_count = 0\<rparr>\<rparr>, store_empty)) \<and>
   lfs_emubd_erase emu_2k store_empty 1 512 0 =
     Some (Returns Zero
       (emu_2k\<lparr>stats := \<lparr>read_count = 0, prog_count = 0, erase_count = 1\<rparr>\<rparr>, store_empty))"
proof -
  have h: "read_size (info emu_2k) \<noteq> 0" "prog_size (info emu_2k) \<noteq> 0"
    "erase_size (info emu_2k) \<noteq> 0"
    "unat (512 :: 32 word) mod unat (read_size (info emu_2k)) = 0"
    "unat (512 :: 32 word) mod unat (prog_size (info emu_2k)) = 0"
    "unat (512 :: 32 word) mod unat (erase_size (info emu_2k)) = 0"
    "unat (1 :: 32 word) * unat (erase_size (info emu_2k)) + unat (512 :: 32 word)
       < unat (total_size (info emu_2k))"
    by (simp_all add: emu_2k_def)
  have st: "stats emu_2k = \<lparr>read_count = 0, prog_count = 0, erase_count = 0\<rparr>"
    by (simp add: emu_2k_def)
  show ?thesis
    using h zero_size_access [of emu_2k 512 1 store_empty "[7]"]
    by (simp add: st)
qed

section \<open>What a call of the collaborator leaves behind\<close>

lemma fopen_post:
  "fopen p m s = (f, s1) \<Longrightarrow>
     (f = None \<and> errno s1 \<noteq> None \<and> streams s1 = streams s) \<or>
     (f \<noteq> None \<and> streams s1 = streams s + 1)"
  by (auto simp: fopen_def next_fault_def
      split: list.splits option.splits entry.splits if_splits)

lemma fseek_post:
  "fseek f off s = (err, f1, s1) \<Longrightarrow> streams s1 = streams s \<and> (err \<longrightarrow> errno s1 \<noteq> None)"
  by (auto simp: fseek_def next_fault_def split: list.splits option.splits)

lemma fwrite_post:
  "fwrite bs f s = (res, f1, s1) \<Longrightarrow>
     streams s1 = streams s \<and> (res < length bs \<longrightarrow> errno s1 \<noteq> None)"
  by (auto simp: fwrite_def next_fault_def split: list.splits option.splits entry.splits)

lemma fclose_post:
  "fclose f s = (err, s1) \<Longrightarrow> streams s1 = streams s - 1 \<and> (err \<longrightarrow> errno s1 \<noteq> None)"
  by (auto simp: fclose_def next_fault_def split: list.splits option.splits)

lemma neg_errno_Zero: "neg_errno s = Zero \<longleftrightarrow> errno s = None"
  by (simp add: neg_errno_def split: option.splits)

section \<open>Counters and open streams along the loops\<close>

lemma read_block_post:
  "read_post (stats emu) (streams s) (read_block emu s block off sz buf pos)"
  by (auto simp: read_post_def read_block_def fopen_def fseek_def fread_def fclose_def
      next_fault_def neg_errno_def Let_def
      split: list.splits option.splits entry.splits prod.splits if_splits)

lemma prog_block_post:
  "dev_post (stats emu) (streams s) (prog_block emu s block off sz data pos)"
proof -
  let ?e = "emu\<lparr>child := snprintf_x block\<rparr>"
  let ?c = "lfs_min (erase_size (info ?e) - off) sz"
  obtain f s1 where o1: "fopen (emu_path ?e) Mode_r_plus_b s = (f, s1)" by force
  obtain f' s2 where o2: "(if f = None \<and> errno s1 = Some ENOENT
      then fopen (emu_path ?e) Mode_w_plus_b s1 else (f, s1)) = (f', s2)" by force
  have p2: "(f' = None \<and> errno s2 \<noteq> None \<and> streams s2 = streams s) \<or>
     (f' \<noteq> None \<and> streams s2 = streams s + 1)"
    using fopen_post [OF o1] o2
    by (auto split: if_splits dest!: fopen_post)
  show ?thesis
  proof (cases f')
    case None
    with p2 o1 o2 show ?thesis
      by (simp add: prog_block_def Let_def dev_post_def neg_errno_Zero)
  next
    case (Some f0)
    obtain err f1 s3 where o3: "fseek f0 (unat off) s2 = (err, f1, s3)"
      by (cases "fseek f0 (unat off) s2") auto
    obtain res f2 s4 where o4:
      "fwrite (take (unat ?c) (drop pos data)) f1 s3 = (res, f2, s4)"
      by (cases "fwrite (take (unat ?c) (drop pos data)) f1 s3") auto
    obtain err' s5 where o5: "fclose f2 s4 = (err', s5)" by force
    from p2 Some have n2: "streams s2 = streams s + 1" by simp
    note q3 = fseek_post [OF o3] and q4 = fwrite_post [OF o4] and q5 = fclose_post [OF o5]
    show ?thesis
      using o1 o2 o3 o4 o5 Some n2 q3 q4 q5
      by (simp add: prog_block_def Let_def dev_post_def neg_errno_Zero)
  qed
qed

lemma erase_block_post:
  "dev_post (stats emu) (streams s) (erase_block emu s block off sz)"
  by (auto simp: dev_post_def erase_block_def stat_def unlink_def
      next_fault_def neg_errno_def Let_def
      split: list.splits option.splits entry.splits prod.splits if_splits)

lemma read_loop_post:
  assumes "read_loop emu s block off sz buf pos = Some res"
  shows "read_post (stats emu) (streams s) res"
proof (rule read_loop.raw_induct
    [where P = "\<lambda>emu s block off sz buf pos res. read_post (stats emu) (streams s) res",
      OF _ assms])
  fix loop :: "lfs_emubd \<Rightarrow> filestore \<Rightarrow> lfs_block_t \<Rightarrow> lfs_off_t \<Rightarrow> lfs_size_t \<Rightarrow> byte list
      \<Rightarrow> nat \<Rightarrow> (read_result + read_state) option"
    and emu s block off sz buf pos res
  assume IH: "\<And>emu s block off sz buf pos res.
      loop emu s block off sz buf pos = Some res \<Longrightarrow> read_post (stats emu) (streams s) res"
  assume eq: "(if 0 < sz
      then case read_block emu s block off sz buf pos of
           Inl r \<Rightarrow> Some (Inl r)
           | Inr (emu', s', block', off', sz', buf', pos') \<Rightarrow>
               loop emu' s' block' off' sz' buf' pos'
      else Some (Inr (emu, s, block, off, sz, buf, pos))) = Some res"
  show "read_post (stats emu) (streams s) res"
  proof (cases "0 < sz")
    case False
    with eq show ?thesis by (auto simp: read_post_def)
  next
    case True
    have bp: "read_post (stats emu) (streams s) (read_block emu s block off sz buf pos)"
      by (rule read_block_post)
    show ?thesis
    proof (cases "read_block emu s block off sz buf pos")
      case (Inl r)
      with eq True bp show ?thesis by simp
    next
      case (Inr st)
      obtain emu' s' block' off' sz' buf' pos' where
        st: "st = (emu', s', block', off', sz', buf', pos')"
        by (cases st) auto
      from eq True Inr st have "loop emu' s' block' off' sz' buf' pos' = Some res" by simp
      then have "read_post (stats emu') (streams s') res" by (rule IH)
      moreover from bp Inr st have "stats emu' = stats emu" "streams s' = streams s"
        by (simp_all add: read_post_def)
      ultimately show ?thesis by simp
    qed
  qed
qed

lemma prog_loop_post:
  assumes "prog_loop emu s block off sz data pos = Some res"
  shows "dev_post (stats emu) (streams s) res"
proof (rule prog_loop.raw_induct
    [where P = "\<lambda>emu s block off sz data pos res. dev_post (stats emu) (streams s) res",
      OF _ assms])
  fix loop :: "lfs_emubd \<Rightarrow> filestore \<Rightarrow> lfs_block_t \<Rightarrow> lfs_off_t \<Rightarrow> lfs_size_t \<Rightarrow> byte list
      \<Rightarrow> nat \<Rightarrow> (dev_result + prog_state) option"
    and emu s block off sz data pos res
  assume IH: "\<And>emu s block off sz data pos res.
      loop emu s block off sz data pos = Some res \<Longrightarrow> dev_post (stats emu) (streams s) res"
  assume eq: "(if 0 < sz
      then case prog_block emu s block off sz data pos of
           Inl r \<Rightarrow> Some (Inl r)
           | Inr (emu', s', block', off', sz', pos') \<Rightarrow>
               loop emu' s' block' off' sz' data pos'
      else Some (Inr (emu, s, block, off, sz, pos))) = Some res"
  show "dev_post (stats emu) (streams s) res"
  proof (cases "0 < sz")
    case False
    with eq show ?thesis by (auto simp: dev_post_def)
  next
    case True
    have bp: "dev_post (stats emu) (streams s) (prog_block emu s block off sz data pos)"
      by (rule prog_block_post)
    show ?thesis
    proof (cases "prog_block emu s block off sz data pos")
      case (Inl r)
      with eq True bp show ?thesis by (simp add: dev_post_def)
    next
      case (Inr st)
      obtain emu' s' block' off' sz' pos' where
        st: "st = (emu', s', block', off', sz', pos')"
        by (cases st) auto
      from eq True Inr st have "loop emu' s' block' off' sz' data pos' = Some res" by simp
      then have "dev_post (stats emu') (streams s') res" by (rule IH)
      moreover from bp Inr st have "stats emu' = stats emu" "streams s' = streams s"
        by (simp_all add: dev_post_def)
      ultimately show ?thesis by simp
    qed
  qed
qed

lemma erase_loop_post:
  assumes "erase_loop emu s block off sz = Some res"
  shows "dev_post (stats emu) (streams s) res"
proof (rule erase_loop.raw_induct
    [where P = "\<lambda>emu s block off sz res. dev_post (stats emu) (streams s) res",
      OF _ assms])
  fix loop :: "lfs_emubd \<Rightarrow> filestore \<Rightarrow> lfs_block_t \<Rightarrow> lfs_off_t \<Rightarrow> lfs_size_t
      \<Rightarrow> (dev_result + erase_state) option"
    and emu s block off sz res
  assume IH: "\<And>emu s block off sz res.
      loop emu s block off sz = Some res \<Longrightarrow> dev_post (stats emu) (streams s) res"
  assume eq: "(if 0 < sz
      then case erase_block emu s block off sz of
           Inl r \<Rightarrow> Some (Inl r)
           | Inr (emu', s', block', off', sz') \<Rightarrow> loop emu' s' block' off' sz'
      else Some (Inr (emu, s, block, off, sz))) = Some res"
  show "dev_post (stats emu) (streams s) res"
  proof (cases "0 < sz")
    case False
    with eq show ?thesis by (auto simp: dev_post_def)
  next
    case True
    have bp: "dev_post (stats emu) (streams s) (erase_block emu s block off sz)"
      by (rule erase_block_post)
    show ?thesis
    proof (cases "erase_block emu s block off sz")
      case (Inl r)
      with eq True bp show ?thesis by (simp add: dev_post_def)
    next
      case (Inr st)
      obtain emu' s' block' off' sz' where st: "st = (emu', s', block', off', sz')"
        by (cases st) auto
      from eq True Inr st have "loop emu' s' block' off' sz' = Some res" by simp
      then have "dev_post (stats emu') (streams s') res" by (rule IH)
      moreover from bp Inr st have "stats emu' = stats emu" "streams s' = streams s"
        by (simp_all add: dev_post_def)
      ultimately show ?thesis by simp
    qed
  qed
qed

text \<open>The three operations, whatever the collaborator does.\<close>

lemma lfs_emubd_read_returns:
  assumes "lfs_emubd_read emu s block off sz buffer = Some (Returns r (buf', emu', s'))"
  shows "(r = Zero \<longrightarrow>
            stats emu' = (stats emu)\<lparr>read_count := read_count (stats emu) + 1\<rparr> \<and>
            streams s' = streams s) \<and>
         (r \<noteq> Zero \<longrightarrow>
            stats emu' = stats emu \<and> (streams s' = streams s \<or> streams s' = streams s + 1))"
proof (cases "read_size (info emu) \<noteq> 0 \<and> access_valid (read_size (info emu)) emu block off sz
    \<and> \<not> length buffer < unat sz")
  case False
  with assms show ?thesis by (auto simp: lfs_emubd_read_def split: if_splits)
next
  case True
  let ?l = "read_loop emu s block off sz (memset_zero buffer (unat sz)) 0"
  from assms True obtain res where res: "?l = Some res"
    by (cases ?l) (auto simp: lfs_emubd_read_def)
  from read_loop_post [OF res] assms True res show ?thesis
    by (cases res) (auto simp: lfs_emubd_read_def read_post_def split: outcome.splits)
qed

lemma lfs_emubd_prog_returns:
  assumes "lfs_emubd_prog emu s block off sz data = Some (Returns r (emu', s'))"
  shows "(r = Zero \<longrightarrow>
            stats emu' = (stats emu)\<lparr>prog_count := prog_count (stats emu) + 1\<rparr> \<and>
            streams s' = streams s) \<and>
         (r \<noteq> Zero \<longrightarrow>
            stats emu' = stats emu \<and> (streams s' = streams s \<or> streams s' = streams s + 1))"
proof (cases "prog_size (info emu) \<noteq> 0 \<and> access_valid (prog_size (info emu)) emu block off sz")
  case False
  with assms show ?thesis by (auto simp: lfs_emubd_prog_def split: if_splits)
next
  case True
  let ?l = "prog_loop emu s block off sz data 0"
  from assms True obtain res where res: "?l = Some res"
    by (cases ?l) (auto simp: lfs_emubd_prog_def)
  from prog_loop_post [OF res] assms True res show ?thesis
    by (cases res) (auto simp: lfs_emubd_prog_def dev_post_def split: outcome.splits)
qed

lemma lfs_emubd_erase_returns:
  assumes "lfs_emubd_erase emu s block off sz = Some (Returns r (emu', s'))"
  shows "(r = Zero \<longrightarrow>
            stats emu' = (stats emu)\<lparr>erase_count := erase_count (stats emu) + 1\<rparr>) \<and>
         (r \<noteq> Zero \<longrightarrow> stats emu' = stats emu)"
proof (cases "erase_size (info emu) \<noteq> 0 \<and> access_valid (erase_size (info emu)) emu block off sz")
  case False
  with assms show ?thesis by (auto simp: lfs_emubd_erase_def split: if_splits)
next
  case True
  let ?l = "erase_loop emu s block off sz"
  from assms True obtain res where res: "?l = Some res"
    by (cases ?l) (auto simp: lfs_emubd_erase_def)
  from erase_loop_post [OF res] assms True res show ?thesis
    by (cases res) (auto simp: lfs_emubd_erase_def dev_post_def split: outcome.splits)
qed

section \<open>Concrete runs\<close>

lemmas eval_defs =
  lfs_emubd_read_def lfs_emubd_prog_def lfs_emubd_erase_def
  read_loop.simps prog_loop.simps erase_loop.simps read_block_def prog_block_def erase_block_def
  fopen_def fseek_def fread_def fwrite_def fclose_def stat_def unlink_def next_fault_def
  creates_def contents_def write_at_def store_bytes_def memset_zero_def neg_errno_def
  access_valid_def in_bounds_def lfs_min_def emu_path_def snprintf_x_def hex_nat.simps
  hex_digit_def Let_def emu_2k_def emu_small_def store_empty_def

text \<open>A read of four bytes over the blocks 1 and 2 of an empty store.\<close>

lemma read_two_blocks:
  "lfs_emubd_read emu_small store_empty 1 0 4 (replicate 4 9) =
     Some (Returns Zero (replicate 4 0,
       emu_small\<lparr>child := ''2'',
         stats := \<lparr>read_count = 1, prog_count = 0, erase_count = 0\<rparr>\<rparr>,
       store_empty\<lparr>errno := Some ENOENT\<rparr>))"
  by (simp add: eval_defs)

text \<open>A read whose \<^verbatim>\<open>fseek\<close> fails.\<close>

lemma read_seek_fails:
  "lfs_emubd_read emu_small (store_block0\<lparr>faults := [None, Some EIO]\<rparr>) 0 0 4
       (replicate 4 9) =
     Some (Returns (Neg EIO) (replicate 4 0, emu_small\<lparr>child := ''0''\<rparr>,
       store_block0\<lparr>streams := 1, errno := Some EIO\<rparr>))"
  by (simp add: eval_defs store_block0_def)

text \<open>Three bytes programmed over the blocks 1 and 2.\<close>

lemma prog_two_blocks:
  "lfs_emubd_prog emu_small store_empty 1 0 3 [7, 8, 9] =
     Some (Returns Zero
       (emu_small\<lparr>child := ''2'',
          stats := \<lparr>read_count = 0, prog_count = 1, erase_count = 0\<rparr>\<rparr>,
        store_empty\<lparr>entries := [''bd/1'' \<mapsto> Reg [7, 8], ''bd/2'' \<mapsto> Reg [9]],
          errno := Some ENOENT\<rparr>))"
  by (simp add: eval_defs)

text \<open>A program whose \<^verbatim>\<open>fwrite\<close> fails.\<close>

lemma prog_write_fails:
  "lfs_emubd_prog emu_small (store_block0\<lparr>faults := [None, None, Some ENOSPC]\<rparr>) 0 0 2
       [7, 8] =
     Some (Returns (Neg ENOSPC) (emu_small\<lparr>child := ''0''\<rparr>,
       store_block0\<lparr>streams := 1, errno := Some ENOSPC\<rparr>))"
  by (simp add: eval_defs store_block0_def)

text \<open>The blocks 1 and 2 erased.\<close>

lemma erase_two_blocks:
  "lfs_emubd_erase emu_small
      (store_empty\<lparr>entries := [''bd/1'' \<mapsto> Reg [7, 8], ''bd/2'' \<mapsto> Reg [9]]\<rparr>) 1 0 4 =
     Some (Returns Zero
       (emu_small\<lparr>child := ''2'',
          stats := \<lparr>read_count = 0, prog_count = 0, erase_count = 1\<rparr>\<rparr>,
        store_empty\<lparr>entries := ([''bd/1'' \<mapsto> Reg [7, 8], ''bd/2'' \<mapsto> Reg [9]])
          (''bd/1'' := None, ''bd/2'' := None)\<rparr>))"
  by (simp add: eval_defs)

section \<open>The usage counters\<close>

text \<open>
  C4: a call of read, program or erase that returns 0 has added exactly 1 to its own
  counter, however many blocks its range spans, and has left the other two counters
  as they were; a call that returns an error has changed no counter.  This holds
  whatever the file store does during the call.
\<close>

theorem counters_once_per_call:
  "(lfs_emubd_read emu s block off sz buffer = Some (Returns r1 (buf1, emu1, s1)) \<longrightarrow>
      stats emu1 =
        (if r1 = Zero then (stats emu)\<lparr>read_count := read_count (stats emu) + 1\<rparr>
         else stats emu)) \<and>
   (lfs_emubd_prog emu s block off sz buffer = Some (Returns r2 (emu2, s2)) \<longrightarrow>
      stats emu2 =
        (if r2 = Zero then (stats emu)\<lparr>prog_count := prog_count (stats emu) + 1\<rparr>
         else stats emu)) \<and>
   (lfs_emubd_erase emu s block off sz = Some (Returns r3 (emu3, s3)) \<longrightarrow>
      stats emu3 =
        (if r3 = Zero then (stats emu)\<lparr>erase_count := erase_count (stats emu) + 1\<rparr>
         else stats emu))"
  using lfs_emubd_read_returns [of emu s block off sz buffer r1 buf1 emu1 s1]
    lfs_emubd_prog_returns [of emu s block off sz buffer r2 emu2 s2]
    lfs_emubd_erase_returns [of emu s block off sz r3 emu3 s3]
  by simp

text \<open>
  A read and an erase over two blocks each, and a program whose write fails.
\<close>

theorem counters_once_per_call_witness:
  "lfs_emubd_read emu_small store_empty 1 0 4 (replicate 4 9) =
     Some (Returns Zero (replicate 4 0,
       emu_small\<lparr>child := ''2'',
         stats := \<lparr>read_count = 1, prog_count = 0, erase_count = 0\<rparr>\<rparr>,
       store_empty\<lparr>errno := Some ENOENT\<rparr>)) \<and>
   stats (emu_small\<lparr>child := ''2'',
         stats := \<lparr>read_count = 1, prog_count = 0, erase_count = 0\<rparr>\<rparr>) =
     (stats emu_small)\<lparr>read_count := read_count (stats emu_small) + 1\<rparr> \<and>
   lfs_emubd_erase emu_small
       (store_empty\<lparr>entries := [''bd/1'' \<mapsto> Reg [7, 8], ''bd/2'' \<mapsto> Reg [9]]\<rparr>) 1 0 4 =
     Some (Returns Zero
       (emu_small\<lparr>child := ''2'',
          stats := \<lparr>read_count = 0, prog_count = 0, erase_count = 1\<rparr>\<rparr>,
        store_empty\<lparr>entries := ([''bd/1'' \<mapsto> Reg [7, 8], ''bd/2'' \<mapsto> Reg [9]])
          (''bd/1'' := None, ''bd/2'' := None)\<rparr>)) \<and>
   stats (emu_small\<lparr>child := ''2'',
          stats := \<lparr>read_count = 0, prog_count = 0, erase_count = 1\<rparr>\<rparr>) =
     (stats emu_small)\<lparr>erase_count := erase_count (stats emu_small) + 1\<rparr> \<and>
   lfs_emubd_prog emu_small (store_block0\<lparr>faults := [None, None, Some ENOSPC]\<rparr>) 0 0 2
       [7, 8] =
     Some (Returns (Neg ENOSPC) (emu_small\<lparr>child := ''0''\<rparr>,
       store_block0\<lparr>streams := 1, errno := Some ENOSPC\<rparr>)) \<and>
   stats (emu_small\<lparr>child := ''0''\<rparr>) = stats emu_small"
  using read_two_blocks erase_two_blocks prog_write_fails
    counters_once_per_call [of emu_small store_empty 1 0 4 "replicate 4 9" Zero
      "replicate 4 0"
      "emu_small\<lparr>child := ''2'',
         stats := \<lparr>read_count = 1, prog_count = 0, erase_count = 0\<rparr>\<rparr>"
      "store_empty\<lparr>errno := Some ENOENT\<rparr>"]
    counters_once_per_call [of emu_small _ 1 0 4 _ _ _ _ _ _ _ _ Zero
      "emu_small\<lparr>child := ''2'',
         stats := \<lparr>read_count = 0, prog_count = 0, erase_count = 1\<rparr>\<rparr>"]
    counters_once_per_call [of emu_small
      "store_block0\<lparr>faults := [None, None, Some ENOSPC]\<rparr>" 0 0 2 "[7, 8]" _ _ _ _
      "Neg ENOSPC" "emu_small\<lparr>child := ''0''\<rparr>"
      "store_block0\<lparr>streams := 1, errno := Some ENOSPC\<rparr>"]
  by (simp add: emu_small_def)

section \<open>Open streams at the return\<close>

text \<open>
  C7, as the claim states it, fails: when \<^verbatim>\<open>fseek\<close> fails, \<^verbatim>\<open>lfs_emubd_read\<close> returns
  the error with the stream of the block still open.  One stream is open after the
  call, none was before.
\<close>

theorem stream_left_open_counterexample:
  "lfs_emubd_read emu_small (store_block0\<lparr>faults := [None, Some EIO]\<rparr>) 0 0 4
       (replicate 4 9) =
     Some (Returns (Neg EIO) (replicate 4 0, emu_small\<lparr>child := ''0''\<rparr>,
       store_block0\<lparr>streams := 1, errno := Some EIO\<rparr>)) \<and>
   streams (store_block0\<lparr>faults := [None, Some EIO]\<rparr>) = 0 \<and>
   streams (store_block0\<lparr>streams := 1, errno := Some EIO\<rparr>) = 1"
  using read_seek_fails by (simp add: store_block0_def)

text \<open>
  C7, amended: when read or program returns 0, every stream opened during the walk
  has been closed (as many streams are open as before the call); when it returns an
  error, at most one stream opened by the call is still open.
\<close>

theorem streams_closed_on_success:
  "(lfs_emubd_read emu s block off sz buffer = Some (Returns r1 (buf1, emu1, s1)) \<longrightarrow>
      (if r1 = Zero then streams s1 = streams s
       else streams s1 = streams s \<or> streams s1 = streams s + 1)) \<and>
   (lfs_emubd_prog emu s block off sz buffer = Some (Returns r2 (emu2, s2)) \<longrightarrow>
      (if r2 = Zero then streams s2 = streams s
       else streams s2 = streams s \<or> streams s2 = streams s + 1))"
  using lfs_emubd_read_returns [of emu s block off sz buffer r1 buf1 emu1 s1]
    lfs_emubd_prog_returns [of emu s block off sz buffer r2 emu2 s2]
  by simp

theorem streams_closed_on_success_witness:
  "lfs_emubd_prog emu_small store_empty 1 0 3 [7, 8, 9] =
     Some (Returns Zero
       (emu_small\<lparr>child := ''2'',
          stats := \<lparr>read_count = 0, prog_count = 1, erase_count = 0\<rparr>\<rparr>,
        store_empty\<lparr>entries := [''bd/1'' \<mapsto> Reg [7, 8], ''bd/2'' \<mapsto> Reg [9]],
          errno := Some ENOENT\<rparr>)) \<and>
   streams (store_empty\<lparr>entries := [''bd/1'' \<mapsto> Reg [7, 8], ''bd/2'' \<mapsto> Reg [9]],
          errno := Some ENOENT\<rparr>) = streams store_empty \<and>
   lfs_emubd_read emu_small (store_block0\<lparr>faults := [None, Some EIO]\<rparr>) 0 0 4
       (replicate 4 9) =
     Some (Returns (Neg EIO) (replicate 4 0, emu_small\<lparr>child := ''0''\<rparr>,
       store_block0\<lparr>streams := 1, errno := Some EIO\<rparr>)) \<and>
   streams (store_block0\<lparr>streams := 1, errno := Some EIO\<rparr>) =
     streams (store_block0\<lparr>faults := [None, Some EIO]\<rparr>) + 1"
  using prog_two_blocks read_seek_fails
    streams_closed_on_success [of emu_small store_empty 1 0 3 "[7, 8, 9]" _ _ _ _ Zero
      "emu_small\<lparr>child := ''2'',
          stats := \<lparr>read_count = 0, prog_count = 1, erase_count = 0\<rparr>\<rparr>"
      "store_empty\<lparr>entries := [''bd/1'' \<mapsto> Reg [7, 8], ''bd/2'' \<mapsto> Reg [9]],
          errno := Some ENOENT\<rparr>"]
  by (simp add: store_block0_def store_empty_def)

section \<open>A refused open in \<^verbatim>\<open>lfs_emubd_prog\<close>\<close>

text \<open>
  C9 does not hold of the code: when the \<^verbatim>\<open>fopen\<close> for update fails for another
  reason than \<^verbatim>\<open>ENOENT\<close> (here \<^verbatim>\<open>EACCES\<close>), \<^verbatim>\<open>lfs_emubd_prog\<close> does not return an error:
  the null stream is handed to \<^verbatim>\<open>fseek\<close>.  \<^verbatim>\<open>lfs_emubd_read\<close> returns \<^verbatim>\<open>-errno\<close> in the
  same situation.
\<close>

theorem prog_open_refused:
  "lfs_emubd_prog emu_2k (store_empty\<lparr>faults := [Some EACCES]\<rparr>) 0 0 16 (replicate 16 170) =
     Some Undefined"
  by (simp add: eval_defs)

section \<open>The statistics at creation\<close>

lemma length_nat_le: "length (nat_le n k) = n"
  by (induction n arbitrary: k) auto

lemma le_nat_nat_le: "le_nat (nat_le n k) = k mod 256 ^ n"
proof (induction n arbitrary: k)
  case 0
  show ?case by simp
next
  case (Suc n)
  have "unat (of_nat (k mod 256) :: byte) = k mod 256"
    by (simp add: unat_of_nat)
  then show ?case
    by (simp add: Suc mod_mult2_eq)
qed

lemma le_nat_zeros: "le_nat (replicate n 0) = 0"
  by (induction n) auto

lemma le64_bytes_le64: "le64 (bytes_le64 w) = w"
proof -
  have "unat w < 2 ^ LENGTH(64)" by (rule unsigned_less)
  then have "unat w < 256 ^ 8" by simp
  then show ?thesis by (simp add: le64_def bytes_le64_def le_nat_nat_le)
qed

lemma length_bytes_le64: "length (bytes_le64 w) = 8"
  by (simp add: bytes_le64_def length_nat_le)

lemma length_bytes_of_stats: "length (bytes_of_stats st) = sizeof_stats"
  by (simp add: bytes_of_stats_def sizeof_stats_def length_bytes_le64)

text \<open>The image of the counters that \<^verbatim>\<open>lfs_emubd_sync\<close> writes is read back as it was.\<close>

lemma stats_of_bytes_of_stats: "stats_of_bytes (bytes_of_stats st @ rest) = st"
  by (simp add: stats_of_bytes_def bytes_of_stats_def length_bytes_le64 le64_bytes_le64)

lemma sync_persists:
  assumes "faults s = []" "entries s (emu_path (emu\<lparr>child := ''info''\<rparr>)) \<noteq> Some Dir"
    "entries s (emu_path (emu\<lparr>child := ''stats''\<rparr>)) \<noteq> Some Dir"
  shows "\<exists>s'. lfs_emubd_sync emu s = Returns Zero (emu\<lparr>child := ''stats''\<rparr>, s') \<and>
     faults s' = [] \<and>
     entries s' (path emu @ ''/stats'') = Some (Reg (bytes_of_stats (stats emu)))"
  using assms
  by (auto simp: lfs_emubd_sync_def Let_def emu_path_def neg_errno_def
      fopen_def fwrite_def fclose_def next_fault_def creates_def write_at_def
      length_bytes_of_stats sizeof_stats_def
      split: option.splits entry.splits)

lemma malloc_post: "malloc s = (ok, s1) \<Longrightarrow> entries s1 = entries s"
  by (auto simp: malloc_def next_fault_def split: list.splits option.splits)

lemma mkdir_post:
  "mkdir p s = (err, s1) \<Longrightarrow>
     (\<forall>q. q \<noteq> p \<longrightarrow> entries s1 q = entries s q) \<and>
     (entries s p \<noteq> None \<longrightarrow> err \<and> errno s1 \<noteq> None \<and> entries s1 = entries s) \<and>
     (err \<longrightarrow> errno s1 \<noteq> None)"
  by (auto simp: mkdir_def next_fault_def split: list.splits option.splits)

lemma fopen_r_post:
  "fopen q Mode_r s = (f, s1) \<Longrightarrow>
     entries s1 = entries s \<and>
     (case f of None \<Rightarrow> errno s1 \<noteq> None
      | Some f0 \<Rightarrow> errno s1 = errno s \<and> fpath f0 = q \<and> fpos f0 = 0 \<and> entries s q \<noteq> None)"
  by (auto simp: fopen_def next_fault_def creates_def
      split: list.splits option.splits entry.splits)

lemma fread_post:
  "fread n f s = (bytes, f1, s1) \<Longrightarrow>
     length bytes \<le> length (drop (fpos f) (contents s (fpath f))) \<and>
     (errno s \<noteq> None \<longrightarrow> errno s1 \<noteq> None)"
  by (auto simp: fread_def next_fault_def contents_def Let_def
      split: list.splits option.splits entry.splits)

text \<open>
  Without the artifact \<^verbatim>\<open>stats\<close>, or with one that is shorter than the record in a
  base directory that exists, \<^verbatim>\<open>lfs_emubd_create\<close> returns an error, whatever the file
  store does during the call.  (After the short read the value returned is that of
  the stale \<^verbatim>\<open>errno\<close>, which \<^verbatim>\<open>mkdir\<close> has set to \<^verbatim>\<open>EEXIST\<close>.)
\<close>

lemma create_without_stats:
  assumes "entries s (p @ ''/stats'') = None \<or>
      (\<exists>c. entries s (p @ ''/stats'') = Some (Reg c) \<and> length c < sizeof_stats \<and>
         entries s p \<noteq> None)"
  shows "\<exists>e emu' s'. lfs_emubd_create config emu s p = Returns (Neg e) (emu', s')"
proof -
  let ?q = "p @ ''/stats''"
  obtain ok s1 where o1: "malloc s = (ok, s1)" by force
  obtain err s2 where o2: "mkdir p s1 = (err, s2)" by force
  obtain f s3 where o3: "fopen ?q Mode_r s2 = (f, s3)" by force
  note q1 = malloc_post [OF o1] and q2 = mkdir_post [OF o2] and q3 = fopen_r_post [OF o3]
  have e2: "entries s2 ?q = entries s ?q" using q1 q2 by simp
  show ?thesis
  proof (cases "\<not> ok \<or> (err \<and> errno s2 \<noteq> Some EEXIST) \<or> f = None")
    case True
    with o1 o2 o3 q2 q3 show ?thesis
      by (auto simp: lfs_emubd_create_def Let_def emu_path_def neg_errno_def
          split: option.splits)
  next
    case False
    then obtain f0 where f0: "f = Some f0" by auto
    from q3 f0 have ex: "entries s ?q \<noteq> None" and fp: "fpath f0 = ?q" "fpos f0 = 0"
      and er3: "errno s3 = errno s2" and e3: "entries s3 = entries s2"
      using e2 by auto
    from assms ex obtain c where c: "entries s ?q = Some (Reg c)" "length c < sizeof_stats"
      "entries s p \<noteq> None" by auto
    from q1 c(3) have "entries s1 p \<noteq> None" by simp
    with q2 have er2: "errno s2 \<noteq> None" by simp
    obtain bytes f1 s4 where o4: "fread sizeof_stats f0 s3 = (bytes, f1, s4)"
      by (cases "fread sizeof_stats f0 s3") auto
    from fread_post [OF o4] fp c e2 e3 er2 er3
    have "length bytes < sizeof_stats" "errno s4 \<noteq> None"
      by (auto simp: contents_def)
    with o1 o2 o3 o4 False f0 show ?thesis
      by (auto simp: lfs_emubd_create_def Let_def emu_path_def neg_errno_def
          split: option.splits)
  qed
qed

lemma create_loads_stats:
  assumes "faults s = []" "entries s (p @ ''/stats'') = Some (Reg c)"
    "sizeof_stats \<le> length c"
  shows "\<exists>s'. lfs_emubd_create config emu s p =
     Returns Zero (emu\<lparr>path := p, child := ''stats'', info := config,
       stats := stats_of_bytes (take sizeof_stats c)\<rparr>, s')"
  using assms
  by (auto simp: lfs_emubd_create_def Let_def emu_path_def neg_errno_def malloc_def mkdir_def
      fopen_def fread_def fclose_def next_fault_def creates_def contents_def
      split: option.splits entry.splits)

text \<open>
  C8: against a base directory whose artifact \<^verbatim>\<open>stats\<close> is absent, or shorter than the
  record of the counters, creation returns an error (it does not start from zero);
  when the artifact is there and holds at least the 24 bytes of the record, and the
  file store works, creation returns 0 with the counters that the first 24 bytes hold
  (by \<open>stats_of_bytes_of_stats\<close> the counters that were persisted).
\<close>

theorem create_needs_stats:
  "((entries s (p @ ''/stats'') = None \<or>
     (\<exists>c'. entries s (p @ ''/stats'') = Some (Reg c') \<and> length c' < sizeof_stats \<and>
        entries s p \<noteq> None)) \<longrightarrow>
    (\<exists>e emu' s'. lfs_emubd_create config emu s p = Returns (Neg e) (emu', s'))) \<and>
   (faults s = [] \<and> entries s (p @ ''/stats'') = Some (Reg c) \<and> sizeof_stats \<le> length c \<longrightarrow>
    (\<exists>s'. lfs_emubd_create config emu s p =
       Returns Zero (emu\<lparr>path := p, child := ''stats'', info := config,
         stats := stats_of_bytes (take sizeof_stats c)\<rparr>, s')))"
  using create_without_stats [of s p config emu] create_loads_stats [of s p c config emu]
  by blast

lemmas create_defs =
  lfs_emubd_create_def Let_def emu_path_def neg_errno_def malloc_def mkdir_def
  fopen_def fread_def fclose_def next_fault_def creates_def contents_def sizeof_stats_def
  stats_of_bytes_def le64_def le_nat_zeros store_stats_def store_empty_def stats_579_def

lemma create_fresh:
  "lfs_emubd_create (info emu_2k) emu_small store_empty ''bd'' =
     Returns (Neg ENOENT)
       (emu_small\<lparr>path := ''bd'', child := ''stats'', info := info emu_2k,
          stats := zero_stats\<rparr>,
        store_empty\<lparr>entries := [''bd'' \<mapsto> Dir], errno := Some ENOENT\<rparr>)"
  by (simp add: create_defs)

lemma create_short_stats:
  "lfs_emubd_create (info emu_2k) emu_small (store_stats [1, 2, 3]) ''bd'' =
     Returns (Neg EEXIST)
       (emu_small\<lparr>path := ''bd'', child := ''stats'', info := info emu_2k,
          stats := \<lparr>read_count = 197121, prog_count = 0, erase_count = 0\<rparr>\<rparr>,
        (store_stats [1, 2, 3])\<lparr>streams := 1, errno := Some EEXIST\<rparr>)"
  by (simp add: create_defs)

lemma create_full_stats:
  "lfs_emubd_create (info emu_2k) emu_small (store_stats stats_579) ''bd'' =
     Returns Zero
       (emu_small\<lparr>path := ''bd'', child := ''stats'', info := info emu_2k,
          stats := \<lparr>read_count = 5, prog_count = 7, erase_count = 265\<rparr>\<rparr>,
        (store_stats stats_579)\<lparr>errno := Some EEXIST\<rparr>)"
  by (simp add: create_defs)

text \<open>
  Creation in an empty store, with a \<^verbatim>\<open>stats\<close> of three bytes, and with a \<^verbatim>\<open>stats\<close>
  that holds the counters 5, 7 and 265.
\<close>

theorem create_needs_stats_witness:
  "entries store_empty (''bd'' @ ''/stats'') = None \<and>
   lfs_emubd_create (info emu_2k) emu_small store_empty ''bd'' =
     Returns (Neg ENOENT)
       (emu_small\<lparr>path := ''bd'', child := ''stats'', info := info emu_2k,
          stats := zero_stats\<rparr>,
        store_empty\<lparr>entries := [''bd'' \<mapsto> Dir], errno := Some ENOENT\<rparr>) \<and>
   entries (store_stats [1, 2, 3]) (''bd'' @ ''/stats'') = Some (Reg [1, 2, 3]) \<and>
   length [1 :: byte, 2, 3] < sizeof_stats \<and>
   entries (store_stats [1, 2, 3]) ''bd'' \<noteq> None \<and>
   (\<exists>e emu' s'. lfs_emubd_create (info emu_2k) emu_small (store_stats [1, 2, 3]) ''bd'' =
      Returns (Neg e) (emu', s')) \<and>
   faults (store_stats stats_579) = [] \<and>
   entries (store_stats stats_579) (''bd'' @ ''/stats'') = Some (Reg stats_579) \<and>
   sizeof_stats \<le> length stats_579 \<and>
   stats_of_bytes (take sizeof_stats stats_579) =
     \<lparr>read_count = 5, prog_count = 7, erase_count = 265\<rparr> \<and>
   (\<exists>s'. lfs_emubd_create (info emu_2k) emu_small (store_stats stats_579) ''bd'' =
      Returns Zero
        (emu_small\<lparr>path := ''bd'', child := ''stats'', info := info emu_2k,
           stats := \<lparr>read_count = 5, prog_count = 7, erase_count = 265\<rparr>\<rparr>, s'))"
proof -
  have h: "entries (store_stats [1, 2, 3]) (''bd'' @ ''/stats'') = Some (Reg [1, 2, 3])"
    "length [1 :: byte, 2, 3] < sizeof_stats"
    "entries (store_stats [1, 2, 3]) ''bd'' \<noteq> None"
    "faults (store_stats stats_579) = []"
    "entries (store_stats stats_579) (''bd'' @ ''/stats'') = Some (Reg stats_579)"
    "sizeof_stats \<le> length stats_579"
    "entries store_empty (''bd'' @ ''/stats'') = None"
    by (simp_all add: store_stats_def sizeof_stats_def stats_579_def store_empty_def)
  have v: "stats_of_bytes (take sizeof_stats stats_579) =
      \<lparr>read_count = 5, prog_count = 7, erase_count = 265\<rparr>"
    by (simp add: stats_of_bytes_def sizeof_stats_def stats_579_def le64_def)
  from h create_needs_stats [where s = "store_stats [1, 2, 3]" and p = "''bd''"
      and config = "info emu_2k" and emu = emu_small]
  have a: "\<exists>e emu' s'. lfs_emubd_create (info emu_2k) emu_small (store_stats [1, 2, 3]) ''bd'' =
      Returns (Neg e) (emu', s')"
    by blast
  from h create_needs_stats [where s = "store_stats stats_579" and p = "''bd''"
      and c = stats_579 and config = "info emu_2k" and emu = emu_small]
  have b: "\<exists>s'. lfs_emubd_create (info emu_2k) emu_small (store_stats stats_579) ''bd'' =
      Returns Zero
        (emu_small\<lparr>path := ''bd'', child := ''stats'', info := info emu_2k,
           stats := stats_of_bytes (take sizeof_stats stats_579)\<rparr>, s')"
    by blast
  from h a b v create_fresh show ?thesis by simp
qed

section \<open>The names of the artifacts\<close>

text \<open>Different blocks have different artifacts.\<close>

lemma hex_digit_inj: "a < 16 \<Longrightarrow> b < 16 \<Longrightarrow> hex_digit a = hex_digit b \<Longrightarrow> a = b"
proof -
  assume a: "a < 16" and b: "b < 16" and e: "hex_digit a = hex_digit b"
  have d: "distinct ''0123456789abcdef''" by simp
  have l: "length ''0123456789abcdef'' = 16" by simp
  from a b e d l show "a = b"
    unfolding hex_digit_def by (metis nth_eq_iff_index_eq)
qed

lemma hex_nat_nonempty: "hex_nat n \<noteq> []"
  by (subst hex_nat.simps) simp

lemma hex_nat_inj: "hex_nat n = hex_nat m \<Longrightarrow> n = m"
proof (induction n arbitrary: m rule: hex_nat.induct)
  case (1 n)
  show ?case
  proof (cases "n < 16")
    case True
    show ?thesis
    proof (cases "m < 16")
      case m: True
      from "1.prems" True m have "hex_digit n = hex_digit m"
        by (simp add: hex_nat.simps [of n] hex_nat.simps [of m])
      with True m show ?thesis by (rule hex_digit_inj)
    next
      case m: False
      from "1.prems" True m have "[hex_digit n] = hex_nat (m div 16) @ [hex_digit (m mod 16)]"
        by (simp add: hex_nat.simps [of n] hex_nat.simps [of m])
      then have "hex_nat (m div 16) = []" by simp
      then show ?thesis by (simp add: hex_nat_nonempty)
    qed
  next
    case False
    show ?thesis
    proof (cases "m < 16")
      case m: True
      from "1.prems" False m have "hex_nat (n div 16) @ [hex_digit (n mod 16)] = [hex_digit m]"
        by (simp add: hex_nat.simps [of n] hex_nat.simps [of m])
      then have "hex_nat (n div 16) = []" by simp
      then show ?thesis by (simp add: hex_nat_nonempty)
    next
      case m: False
      from "1.prems" False m have e: "hex_nat (n div 16) @ [hex_digit (n mod 16)] =
          hex_nat (m div 16) @ [hex_digit (m mod 16)]"
        by (simp add: hex_nat.simps [of n] hex_nat.simps [of m])
      then have "hex_nat (n div 16) = hex_nat (m div 16)" by simp
      with False have d: "n div 16 = m div 16" by (intro "1.IH") auto
      from e have "hex_digit (n mod 16) = hex_digit (m mod 16)" by simp
      then have "n mod 16 = m mod 16" by (intro hex_digit_inj) auto
      with d show ?thesis by (metis div_mult_mod_eq)
    qed
  qed
qed

lemma snprintf_x_inj: "snprintf_x a = snprintf_x b \<longleftrightarrow> a = b"
  by (auto simp: snprintf_x_def dest!: hex_nat_inj intro: unsigned_word_eqI)

lemma block_file_inj: "block_file dir a = block_file dir b \<longleftrightarrow> a = b"
  by (simp add: block_file_def snprintf_x_inj)

lemma emu_path_block: "emu_path (emu\<lparr>child := snprintf_x b\<rparr>) = block_file (path emu) b"
  by (simp add: emu_path_def block_file_def)

section \<open>Arithmetic of the walk\<close>

lemma word_succ_neq:
  assumes "k < 4294967295" shows "(block :: 32 word) + 1 + of_nat k \<noteq> block"
proof
  assume "block + 1 + of_nat k = block"
  then have "(of_nat (Suc k) :: 32 word) = 0" by (simp add: add.assoc)
  then have "unat (of_nat (Suc k) :: 32 word) = 0" by (simp only: unat_0)
  then have "Suc k mod 2 ^ LENGTH(32) = 0" by (simp only: unat_of_nat)
  with assms show False by simp
qed

lemma count_tail:
  fixes es sz :: "32 word"
  shows "unat (lfs_min es sz) = min (unat es) (unat sz)"
  by (simp add: lfs_min_def word_less_nat_alt min_def)

lemma lfs_min_le: "lfs_min a sz \<le> sz"
  by (auto simp: lfs_min_def)

lemma unat_sub_count: "unat (sz - lfs_min a sz) = unat sz - unat (lfs_min a sz)"
  by (rule unat_sub) (rule lfs_min_le)

section \<open>One turn of a loop when the file store works\<close>

lemma contents_cong: "entries s1 = entries s \<Longrightarrow> contents s1 p = contents s p"
  by (simp add: contents_def)

lemma length_store_bytes:
  "pos + length bs \<le> length buf \<Longrightarrow> length (store_bytes buf pos bs) = length buf"
  by (simp add: store_bytes_def)

lemma nth_store_bytes:
  assumes "pos + length bs \<le> length buf" "i < length buf"
  shows "store_bytes buf pos bs ! i =
     (if pos \<le> i \<and> i < pos + length bs then bs ! (i - pos) else buf ! i)"
  using assms by (auto simp: store_bytes_def nth_append)

lemma read_block_quiet:
  assumes "faults s = []" "entries s (block_file (path emu) block) \<noteq> Some Dir"
  shows "\<exists>s'. read_block emu s block off sz buf pos =
       Inr (emu\<lparr>child := snprintf_x block\<rparr>, s', block + 1, 0,
            sz - lfs_min (erase_size (info emu) - off) sz,
            store_bytes buf pos
              (take (unat (lfs_min (erase_size (info emu) - off) sz))
                 (drop (unat off) (contents s (block_file (path emu) block)))),
            pos + unat (lfs_min (erase_size (info emu) - off) sz)) \<and>
     entries s' = entries s \<and> faults s' = [] \<and> streams s' = streams s"
proof (cases "entries s (block_file (path emu) block)")
  case None
  with assms show ?thesis
    by (simp add: read_block_def emu_path_block fopen_def next_fault_def creates_def
        contents_def store_bytes_def Let_def)
next
  case (Some x)
  with assms obtain c where c: "entries s (block_file (path emu) block) = Some (Reg c)"
    by (cases x) auto
  with assms show ?thesis
    by (simp add: read_block_def emu_path_block fopen_def fseek_def fread_def fclose_def
        next_fault_def creates_def contents_def Let_def)
qed

lemma prog_block_quiet:
  assumes "faults s = []" "entries s (block_file (path emu) block) \<noteq> Some Dir"
    "pos + unat (lfs_min (erase_size (info emu) - off) sz) \<le> length data"
  shows "\<exists>s'. prog_block emu s block off sz data pos =
       Inr (emu\<lparr>child := snprintf_x block\<rparr>, s', block + 1, 0,
            sz - lfs_min (erase_size (info emu) - off) sz,
            pos + unat (lfs_min (erase_size (info emu) - off) sz)) \<and>
     entries s' = (entries s)(block_file (path emu) block \<mapsto>
       Reg (write_at (contents s (block_file (path emu) block)) (unat off)
             (take (unat (lfs_min (erase_size (info emu) - off) sz)) (drop pos data)))) \<and>
     faults s' = [] \<and> streams s' = streams s"
proof (cases "entries s (block_file (path emu) block)")
  case None
  with assms show ?thesis
    by (simp add: prog_block_def emu_path_block fopen_def fseek_def fwrite_def fclose_def
        next_fault_def creates_def contents_def Let_def)
next
  case (Some x)
  with assms obtain c where c: "entries s (block_file (path emu) block) = Some (Reg c)"
    by (cases x) auto
  with assms show ?thesis
    by (simp add: prog_block_def emu_path_block fopen_def fseek_def fwrite_def fclose_def
        next_fault_def creates_def contents_def Let_def)
qed

section \<open>The walk from the start of a block\<close>

text \<open>
  The loops from offset 0, by induction on the size: they end, and the byte \<open>j\<close> of the
  range belongs to the position \<open>j mod erase_size\<close> of the block \<open>j div erase_size\<close>
  further on.
\<close>

lemma read_loop_tail:
  assumes "unat sz = n" "faults s = []" "regular (path emu) s" "erase_size (info emu) \<noteq> 0"
    "pos + unat sz \<le> length buf"
  shows "\<exists>emu' s' block' buf'.
     read_loop emu s block 0 sz buf pos = Some (Inr (emu', s', block', 0, 0, buf', pos + unat sz)) \<and>
     entries s' = entries s \<and> faults s' = [] \<and> streams s' = streams s \<and>
     stats emu' = stats emu \<and> info emu' = info emu \<and> path emu' = path emu \<and>
     length buf' = length buf \<and>
     (\<forall>i < pos. buf' ! i = buf ! i) \<and>
     (\<forall>j < unat sz. buf' ! (pos + j) =
        byte_or (contents s (block_file (path emu)
                   (block + of_nat (j div unat (erase_size (info emu))))))
          (j mod unat (erase_size (info emu))) (buf ! (pos + j)))"
  using assms
proof (induction n arbitrary: emu s block sz buf pos rule: less_induct)
  case (less n)
  let ?es = "erase_size (info emu)"
  show ?case
  proof (cases "sz = 0")
    case True
    with less.prems show ?thesis by (simp add: read_loop_zero)
  next
    case False
    let ?cnt = "lfs_min (?es - 0) sz"
    let ?c = "unat ?cnt"
    let ?emu1 = "emu\<lparr>child := snprintf_x block\<rparr>"
    let ?content = "contents s (block_file (path emu) block)"
    let ?bytes = "take ?c (drop (unat (0 :: 32 word)) ?content)"
    let ?buf1 = "store_bytes buf pos ?bytes"
    have es: "0 < unat ?es" using less.prems(4) by (simp add: unat_gt_0)
    have n0: "0 < n" using False less.prems(1) by (auto simp: unat_gt_0)
    have c: "?c = min (unat ?es) n" using less.prems(1) count_tail [of ?es sz] by simp
    have c0: "0 < ?c" "?c \<le> n" "?c \<le> unat ?es" using c es n0 by auto
    have n': "unat (sz - ?cnt) = n - ?c" using less.prems(1) by (simp add: unat_sub_count)
    from less.prems(3) have reg: "entries s (block_file (path emu) block) \<noteq> Some Dir"
      by (simp add: regular_def)
    from read_block_quiet [OF less.prems(2) reg, of 0 sz buf pos]
    obtain s1 where rb: "read_block emu s block 0 sz buf pos =
        Inr (?emu1, s1, block + 1, 0, sz - ?cnt, ?buf1, pos + ?c)"
      and s1: "entries s1 = entries s" "faults s1 = []" "streams s1 = streams s"
      by blast
    have lb: "length ?bytes \<le> ?c" by simp
    have fit: "pos + length ?bytes \<le> length buf" using less.prems(1,5) c0 lb by linarith
    have len1: "length ?buf1 = length buf" using fit by (rule length_store_bytes)
    have reg1: "regular (path ?emu1) s1" using less.prems(3) s1 by (simp add: regular_def)
    have p1: "pos + ?c + unat (sz - ?cnt) \<le> length ?buf1"
      using less.prems(1,5) c0 n' len1 by simp
    have lt: "n - ?c < n" using c0 n0 by simp
    from less.IH [OF lt n' s1(2) reg1 _ p1, of "block + 1"] less.prems(4)
    obtain emu' s' block' buf' where
      rl: "read_loop ?emu1 s1 (block + 1) 0 (sz - ?cnt) ?buf1 (pos + ?c) =
          Some (Inr (emu', s', block', 0, 0, buf', pos + ?c + unat (sz - ?cnt)))"
      and r: "entries s' = entries s1" "faults s' = []" "streams s' = streams s1"
        "stats emu' = stats ?emu1" "info emu' = info ?emu1" "path emu' = path ?emu1"
        "length buf' = length ?buf1"
      and before: "\<forall>i < pos + ?c. buf' ! i = ?buf1 ! i"
      and inside: "\<forall>j < unat (sz - ?cnt). buf' ! (pos + ?c + j) =
        byte_or (contents s1 (block_file (path ?emu1)
                   (block + 1 + of_nat (j div unat (erase_size (info ?emu1))))))
          (j mod unat (erase_size (info ?emu1))) (?buf1 ! (pos + ?c + j))"
      by auto
    have step: "read_loop emu s block 0 sz buf pos =
        read_loop ?emu1 s1 (block + 1) 0 (sz - ?cnt) ?buf1 (pos + ?c)"
      using False rb by (subst read_loop.simps) (simp add: word_gt_0)
    have fin: "pos + ?c + unat (sz - ?cnt) = pos + unat sz"
      using n' c0 less.prems(1) by simp
    have pre: "\<forall>i < pos. buf' ! i = buf ! i"
    proof (intro allI impI)
      fix i assume i: "i < pos"
      then have "buf' ! i = ?buf1 ! i" using before by simp
      also have "\<dots> = buf ! i" using i fit less.prems(5) by (simp add: nth_store_bytes)
      finally show "buf' ! i = buf ! i" .
    qed
    have val: "\<forall>j < unat sz. buf' ! (pos + j) =
        byte_or (contents s (block_file (path emu) (block + of_nat (j div unat ?es))))
          (j mod unat ?es) (buf ! (pos + j))"
    proof (intro allI impI)
      fix j assume j: "j < unat sz"
      show "buf' ! (pos + j) =
        byte_or (contents s (block_file (path emu) (block + of_nat (j div unat ?es))))
          (j mod unat ?es) (buf ! (pos + j))"
      proof (cases "j < ?c")
        case True
        then have d: "j div unat ?es = 0" "j mod unat ?es = j" using c0 by auto
        have "buf' ! (pos + j) = ?buf1 ! (pos + j)" using before True by simp
        also have "\<dots> = (if j < length ?bytes then ?bytes ! j else buf ! (pos + j))"
          using fit less.prems(1,5) j by (simp add: nth_store_bytes)
        also have "\<dots> = byte_or ?content j (buf ! (pos + j))"
          using True by (simp add: byte_or_def)
        finally show ?thesis using d by simp
      next
        case F: False
        with j less.prems(1) c have ces: "?c = unat ?es" by (simp add: min_def split: if_splits)
        define j' where "j' = j - ?c"
        have j': "j = ?c + j'" "j' < unat (sz - ?cnt)" using F j n' less.prems(1)
          by (simp_all add: j'_def)
        have d: "j div unat ?es = Suc (j' div unat ?es)" "j mod unat ?es = j' mod unat ?es"
          using j'(1) ces es div_add_self1 [of "unat ?es" j'] mod_add_self1 [of "unat ?es" j']
          by simp_all
        have idx: "pos + j = pos + ?c + j'" using j'(1) by simp
        have blk: "block + of_nat (j div unat ?es) = block + 1 + of_nat (j' div unat ?es)"
          by (simp add: d(1) add.assoc)
        have A: "buf' ! (pos + ?c + j') = byte_or (contents s1 (block_file (path emu)
                   (block + 1 + of_nat (j' div unat ?es))))
          (j' mod unat ?es) (?buf1 ! (pos + ?c + j'))"
          using inside j'(2) by simp
        have B: "?buf1 ! (pos + ?c + j') = buf ! (pos + ?c + j')"
          using fit less.prems(1,5) j idx lb by (simp add: nth_store_bytes)
        show ?thesis
          unfolding idx blk d(2) using A B by (simp add: contents_cong [OF s1(1)])
      qed
    qed
    show ?thesis
      using step rl fin r s1 len1 pre val by simp
  qed
qed

lemma write_at_nth:
  assumes "i < length bs"
  shows "off + i < length (write_at c off bs) \<and> write_at c off bs ! (off + i) = bs ! i"
proof -
  let ?pre = "take off c @ replicate (off - length c) 0"
  have l: "length ?pre = off" by simp
  from assms have ne: "bs \<noteq> []" by auto
  then have w: "write_at c off bs = ?pre @ bs @ drop (off + length bs) c"
    by (simp add: write_at_def)
  have "(?pre @ bs @ drop (off + length bs) c) ! (length ?pre + i) =
      (bs @ drop (off + length bs) c) ! i"
    by (rule nth_append_length_plus)
  with assms l w show ?thesis by (simp add: nth_append)
qed

lemma prog_loop_tail:
  assumes "unat sz = n" "faults s = []" "regular (path emu) s" "erase_size (info emu) \<noteq> 0"
    "pos + unat sz \<le> length data"
  shows "\<exists>emu' s' block'.
     prog_loop emu s block 0 sz data pos = Some (Inr (emu', s', block', 0, 0, pos + unat sz)) \<and>
     faults s' = [] \<and> streams s' = streams s \<and> regular (path emu) s' \<and>
     stats emu' = stats emu \<and> info emu' = info emu \<and> path emu' = path emu \<and>
     (\<forall>p. (\<forall>k < unat sz. p \<noteq> block_file (path emu) (block + of_nat k)) \<longrightarrow>
            entries s' p = entries s p) \<and>
     (\<forall>j < unat sz.
        j mod unat (erase_size (info emu))
          < length (contents s' (block_file (path emu)
                      (block + of_nat (j div unat (erase_size (info emu)))))) \<and>
        contents s' (block_file (path emu)
                      (block + of_nat (j div unat (erase_size (info emu)))))
          ! (j mod unat (erase_size (info emu))) = data ! (pos + j))"
  using assms
proof (induction n arbitrary: emu s block sz pos rule: less_induct)
  case (less n)
  let ?es = "erase_size (info emu)"
  let ?dir = "path emu"
  show ?case
  proof (cases "sz = 0")
    case True
    with less.prems show ?thesis by (simp add: prog_loop_zero)
  next
    case False
    let ?cnt = "lfs_min (?es - 0) sz"
    let ?c = "unat ?cnt"
    let ?emu1 = "emu\<lparr>child := snprintf_x block\<rparr>"
    let ?content = "contents s (block_file ?dir block)"
    let ?bytes = "take ?c (drop pos data)"
    have es: "0 < unat ?es" using less.prems(4) by (simp add: unat_gt_0)
    have n0: "0 < n" using False less.prems(1) by (auto simp: unat_gt_0)
    have nb: "n < 4294967296" using less.prems(1) unat32_bound [of sz] by simp
    have c: "?c = min (unat ?es) n" using less.prems(1) count_tail [of ?es sz] by simp
    have c0: "0 < ?c" "?c \<le> n" "?c \<le> unat ?es" using c es n0 by auto
    have n': "unat (sz - ?cnt) = n - ?c" using less.prems(1) by (simp add: unat_sub_count)
    from less.prems(3) have reg: "entries s (block_file ?dir block) \<noteq> Some Dir"
      by (simp add: regular_def)
    have fit: "pos + ?c \<le> length data" using less.prems(1,5) c0 by linarith
    then have lb: "length ?bytes = ?c" by simp
    from prog_block_quiet [OF less.prems(2) reg, of pos 0 sz data] fit
    obtain s1 where pb: "prog_block emu s block 0 sz data pos =
        Inr (?emu1, s1, block + 1, 0, sz - ?cnt, pos + ?c)"
      and e1: "entries s1 = (entries s)(block_file ?dir block \<mapsto>
          Reg (write_at ?content (unat (0 :: 32 word)) ?bytes))"
      and s1: "faults s1 = []" "streams s1 = streams s"
      by blast
    have reg1: "regular (path ?emu1) s1" using less.prems(3) e1 by (simp add: regular_def)
    have p1: "pos + ?c + unat (sz - ?cnt) \<le> length data"
      using less.prems(1,5) c0 n' by simp
    have lt: "n - ?c < n" using c0 n0 by simp
    from less.IH [OF lt n' s1(1) reg1 _ p1, of "block + 1"] less.prems(4)
    obtain emu' s' block' where
      pl: "prog_loop ?emu1 s1 (block + 1) 0 (sz - ?cnt) data (pos + ?c) =
          Some (Inr (emu', s', block', 0, 0, pos + ?c + unat (sz - ?cnt)))"
      and r: "faults s' = []" "streams s' = streams s1" "regular ?dir s'"
        "stats emu' = stats ?emu1" "info emu' = info ?emu1" "path emu' = path ?emu1"
      and frame: "\<forall>p. (\<forall>k < unat (sz - ?cnt). p \<noteq> block_file ?dir (block + 1 + of_nat k)) \<longrightarrow>
            entries s' p = entries s1 p"
      and inside: "\<forall>j < unat (sz - ?cnt).
        j mod unat ?es < length (contents s' (block_file ?dir
                      (block + 1 + of_nat (j div unat ?es)))) \<and>
        contents s' (block_file ?dir (block + 1 + of_nat (j div unat ?es)))
          ! (j mod unat ?es) = data ! (pos + ?c + j)"
      by auto
    have step: "prog_loop emu s block 0 sz data pos =
        prog_loop ?emu1 s1 (block + 1) 0 (sz - ?cnt) data (pos + ?c)"
      using False pb by (subst prog_loop.simps) (simp add: word_gt_0)
    have fin: "pos + ?c + unat (sz - ?cnt) = pos + unat sz"
      using n' c0 less.prems(1) by simp
    have fr: "\<forall>p. (\<forall>k < unat sz. p \<noteq> block_file ?dir (block + of_nat k)) \<longrightarrow>
            entries s' p = entries s p"
    proof (intro allI impI)
      fix p assume p: "\<forall>k < unat sz. p \<noteq> block_file ?dir (block + of_nat k)"
      from n0 less.prems(1) have "0 < unat sz" by simp
      with p have "p \<noteq> block_file ?dir (block + of_nat 0)" by blast
      then have p0: "p \<noteq> block_file ?dir block" by simp
      have "\<forall>k < unat (sz - ?cnt). p \<noteq> block_file ?dir (block + 1 + of_nat k)"
      proof (intro allI impI)
        fix k assume "k < unat (sz - ?cnt)"
        then have "Suc k < unat sz" using n' c0 less.prems(1) by simp
        with p have "p \<noteq> block_file ?dir (block + of_nat (Suc k))" by blast
        then show "p \<noteq> block_file ?dir (block + 1 + of_nat k)" by (simp add: add.assoc)
      qed
      with frame have "entries s' p = entries s1 p" by blast
      with e1 p0 show "entries s' p = entries s p" by simp
    qed
    have own: "entries s' (block_file ?dir block) =
        Some (Reg (write_at ?content 0 ?bytes))"
    proof -
      have "\<forall>k < unat (sz - ?cnt). block_file ?dir block \<noteq> block_file ?dir (block + 1 + of_nat k)"
      proof (intro allI impI)
        fix k assume "k < unat (sz - ?cnt)"
        then have "k < 4294967295" using n' nb by simp
        then have "block + 1 + of_nat k \<noteq> block" by (rule word_succ_neq)
        then show "block_file ?dir block \<noteq> block_file ?dir (block + 1 + of_nat k)"
          by (simp add: block_file_inj)
      qed
      with frame have "entries s' (block_file ?dir block) = entries s1 (block_file ?dir block)"
        by blast
      with e1 show ?thesis by simp
    qed
    have val: "\<forall>j < unat sz.
        j mod unat ?es < length (contents s' (block_file ?dir (block + of_nat (j div unat ?es)))) \<and>
        contents s' (block_file ?dir (block + of_nat (j div unat ?es))) ! (j mod unat ?es) =
          data ! (pos + j)"
    proof (intro allI impI)
      fix j assume j: "j < unat sz"
      show "j mod unat ?es < length (contents s' (block_file ?dir (block + of_nat (j div unat ?es)))) \<and>
        contents s' (block_file ?dir (block + of_nat (j div unat ?es))) ! (j mod unat ?es) =
          data ! (pos + j)"
      proof (cases "j < ?c")
        case True
        then have d: "j div unat ?es = 0" "j mod unat ?es = j" using c0 by auto
        from True lb have jl: "j < length ?bytes" by simp
        have b: "?bytes ! j = data ! (pos + j)" using True fit by simp
        from write_at_nth [OF jl, of 0 ?content] own b d show ?thesis
          by (simp add: contents_def)
      next
        case F: False
        with j less.prems(1) c have ces: "?c = unat ?es" by (simp add: min_def split: if_splits)
        define j' where "j' = j - ?c"
        have j': "j = ?c + j'" "j' < unat (sz - ?cnt)" using F j n' less.prems(1)
          by (simp_all add: j'_def)
        have d: "j div unat ?es = Suc (j' div unat ?es)" "j mod unat ?es = j' mod unat ?es"
          using j'(1) ces es div_add_self1 [of "unat ?es" j'] mod_add_self1 [of "unat ?es" j']
          by simp_all
        have idx: "pos + j = pos + ?c + j'" using j'(1) by simp
        have blk: "block + of_nat (j div unat ?es) = block + 1 + of_nat (j' div unat ?es)"
          by (simp add: d(1) add.assoc)
        from inside j'(2) have "j' mod unat ?es < length (contents s' (block_file ?dir
                      (block + 1 + of_nat (j' div unat ?es)))) \<and>
          contents s' (block_file ?dir (block + 1 + of_nat (j' div unat ?es)))
            ! (j' mod unat ?es) = data ! (pos + ?c + j')" by blast
        then show ?thesis unfolding idx blk d(2) .
      qed
    qed
    show ?thesis
      using step pl fin r s1 fr val by simp
  qed
qed

section \<open>The walk from an offset\<close>

text \<open>
  When the offset lies within the block (or at its end), the walk is the division of
  the address \<open>off + j\<close> by the block size.
\<close>

lemma walk_address:
  assumes "unat off \<le> unat es" "es \<noteq> 0" "j < unat sz"
  shows "walk_block es block off sz j = block + of_nat ((unat off + j) div unat es)"
    and "walk_offset es off sz j = (unat off + j) mod unat es"
proof -
  have es: "0 < unat es" using assms(2) by (simp add: unat_gt_0)
  have "off \<le> es" using assms(1) by (simp add: word_le_nat_alt)
  then have "unat (es - off) = unat es - unat off" by (rule unat_sub)
  then have c: "chunk0 es off sz = min (unat es - unat off) (unat sz)"
    using count_tail [of "es - off" sz] by (simp add: chunk0_def)
  show "walk_block es block off sz j = block + of_nat ((unat off + j) div unat es)"
  proof (cases "j < chunk0 es off sz")
    case True
    with c have "unat off + j < unat es" by arith
    with True show ?thesis by (simp add: walk_block_def)
  next
    case False
    with c assms(3) have c': "chunk0 es off sz = unat es - unat off" by (simp add: min_def split: if_splits)
    with False assms(1) have e: "unat off + j = unat es + (j - chunk0 es off sz)" by simp
    have "(unat off + j) div unat es = Suc ((j - chunk0 es off sz) div unat es)"
      unfolding e using es div_add_self1 [of "unat es" "j - chunk0 es off sz"] by simp
    with False show ?thesis by (simp add: walk_block_def add.assoc)
  qed
  show "walk_offset es off sz j = (unat off + j) mod unat es"
  proof (cases "j < chunk0 es off sz")
    case True
    with c have "unat off + j < unat es" by arith
    with True show ?thesis by (simp add: walk_offset_def)
  next
    case False
    with c assms(3) have c': "chunk0 es off sz = unat es - unat off" by (simp add: min_def split: if_splits)
    with False assms(1) have e: "unat off + j = unat es + (j - chunk0 es off sz)" by simp
    have "(unat off + j) mod unat es = (j - chunk0 es off sz) mod unat es"
      unfolding e by simp
    with False show ?thesis by (simp add: walk_offset_def)
  qed
qed

lemma read_loop_walk:
  assumes "faults s = []" "regular (path emu) s" "erase_size (info emu) \<noteq> 0"
    "unat sz \<le> length buf"
  shows "\<exists>emu' s' block' off' buf'.
     read_loop emu s block off sz buf 0 = Some (Inr (emu', s', block', off', 0, buf', unat sz)) \<and>
     entries s' = entries s \<and> faults s' = [] \<and> streams s' = streams s \<and>
     stats emu' = stats emu \<and> info emu' = info emu \<and> path emu' = path emu \<and>
     length buf' = length buf \<and>
     (\<forall>j < unat sz. buf' ! j =
        byte_or (contents s (block_file (path emu)
                   (walk_block (erase_size (info emu)) block off sz j)))
          (walk_offset (erase_size (info emu)) off sz j) (buf ! j))"
proof (cases "sz = 0")
  case True
  with assms show ?thesis by (simp add: read_loop_zero)
next
  case False
  let ?es = "erase_size (info emu)"
  let ?cnt = "lfs_min (?es - off) sz"
  let ?c = "unat ?cnt"
  let ?emu1 = "emu\<lparr>child := snprintf_x block\<rparr>"
  let ?content = "contents s (block_file (path emu) block)"
  let ?bytes = "take ?c (drop (unat off) ?content)"
  let ?buf1 = "store_bytes buf 0 ?bytes"
  have cle: "?c \<le> unat sz" using lfs_min_le [of "?es - off" sz] by (simp add: word_le_nat_alt)
  have n': "unat (sz - ?cnt) = unat sz - ?c" by (rule unat_sub_count)
  from assms(2) have reg: "entries s (block_file (path emu) block) \<noteq> Some Dir"
    by (simp add: regular_def)
  from read_block_quiet [OF assms(1) reg, of off sz buf 0]
  obtain s1 where rb: "read_block emu s block off sz buf 0 =
      Inr (?emu1, s1, block + 1, 0, sz - ?cnt, ?buf1, ?c)"
    and s1: "entries s1 = entries s" "faults s1 = []" "streams s1 = streams s"
    by auto
  have lb: "length ?bytes \<le> ?c" by simp
  have fit: "0 + length ?bytes \<le> length buf" using assms(4) cle lb by linarith
  have len1: "length ?buf1 = length buf" using fit by (rule length_store_bytes)
  have reg1: "regular (path ?emu1) s1" using assms(2) s1 by (simp add: regular_def)
  have p1: "?c + unat (sz - ?cnt) \<le> length ?buf1" using assms(4) cle n' len1 by simp
  from read_loop_tail [OF refl s1(2) reg1 _ p1, of "block + 1"] assms(3)
  obtain emu' s' block' buf' where
    rl: "read_loop ?emu1 s1 (block + 1) 0 (sz - ?cnt) ?buf1 ?c =
        Some (Inr (emu', s', block', 0, 0, buf', ?c + unat (sz - ?cnt)))"
    and r: "entries s' = entries s1" "faults s' = []" "streams s' = streams s1"
      "stats emu' = stats ?emu1" "info emu' = info ?emu1" "path emu' = path ?emu1"
      "length buf' = length ?buf1"
    and before: "\<forall>i < ?c. buf' ! i = ?buf1 ! i"
    and inside: "\<forall>j < unat (sz - ?cnt). buf' ! (?c + j) =
        byte_or (contents s1 (block_file (path emu) (block + 1 + of_nat (j div unat ?es))))
          (j mod unat ?es) (?buf1 ! (?c + j))"
    by auto
  have step: "read_loop emu s block off sz buf 0 =
      read_loop ?emu1 s1 (block + 1) 0 (sz - ?cnt) ?buf1 ?c"
    using False rb by (subst read_loop.simps) (simp add: word_gt_0)
  have fin: "?c + unat (sz - ?cnt) = unat sz" using n' cle by simp
  have val: "\<forall>j < unat sz. buf' ! j =
      byte_or (contents s (block_file (path emu) (walk_block ?es block off sz j)))
        (walk_offset ?es off sz j) (buf ! j)"
  proof (intro allI impI)
    fix j assume j: "j < unat sz"
    show "buf' ! j =
      byte_or (contents s (block_file (path emu) (walk_block ?es block off sz j)))
        (walk_offset ?es off sz j) (buf ! j)"
    proof (cases "j < ?c")
      case True
      have "buf' ! j = ?buf1 ! j" using before True by simp
      also have "\<dots> = (if j < length ?bytes then ?bytes ! j else buf ! j)"
        using fit assms(4) j by (simp add: nth_store_bytes)
      also have "\<dots> = byte_or ?content (unat off + j) (buf ! j)"
        using True by (auto simp: byte_or_def)
      finally show ?thesis using True by (simp add: walk_block_def walk_offset_def chunk0_def)
    next
      case F: False
      define j' where "j' = j - ?c"
      have j': "j = ?c + j'" "j' < unat (sz - ?cnt)" using F j n' by (simp_all add: j'_def)
      have A: "buf' ! (?c + j') =
          byte_or (contents s1 (block_file (path emu) (block + 1 + of_nat (j' div unat ?es))))
            (j' mod unat ?es) (?buf1 ! (?c + j'))"
        using inside j'(2) by blast
      have B: "?buf1 ! (?c + j') = buf ! (?c + j')"
        using fit assms(4) j j'(1) lb by (simp add: nth_store_bytes)
      have w: "walk_block ?es block off sz j = block + 1 + of_nat (j' div unat ?es)"
        "walk_offset ?es off sz j = j' mod unat ?es"
        using F by (simp_all add: walk_block_def walk_offset_def chunk0_def j'_def)
      show ?thesis unfolding w using A B j'(1) by (simp add: contents_cong [OF s1(1)])
    qed
  qed
  show ?thesis using step rl fin r s1 len1 val by simp
qed

lemma prog_loop_walk:
  assumes "faults s = []" "regular (path emu) s" "erase_size (info emu) \<noteq> 0"
    "unat sz \<le> length data"
  shows "\<exists>emu' s' block' off'.
     prog_loop emu s block off sz data 0 = Some (Inr (emu', s', block', off', 0, unat sz)) \<and>
     faults s' = [] \<and> streams s' = streams s \<and> regular (path emu) s' \<and>
     stats emu' = stats emu \<and> info emu' = info emu \<and> path emu' = path emu \<and>
     (\<forall>j < unat sz.
        walk_offset (erase_size (info emu)) off sz j
          < length (contents s' (block_file (path emu)
                      (walk_block (erase_size (info emu)) block off sz j))) \<and>
        contents s' (block_file (path emu)
                      (walk_block (erase_size (info emu)) block off sz j))
          ! walk_offset (erase_size (info emu)) off sz j = data ! j)"
proof (cases "sz = 0")
  case True
  with assms show ?thesis by (simp add: prog_loop_zero)
next
  case False
  let ?es = "erase_size (info emu)"
  let ?dir = "path emu"
  let ?cnt = "lfs_min (?es - off) sz"
  let ?c = "unat ?cnt"
  let ?emu1 = "emu\<lparr>child := snprintf_x block\<rparr>"
  let ?content = "contents s (block_file ?dir block)"
  let ?bytes = "take ?c (drop 0 data)"
  have cle: "?c \<le> unat sz" using lfs_min_le [of "?es - off" sz] by (simp add: word_le_nat_alt)
  have n': "unat (sz - ?cnt) = unat sz - ?c" by (rule unat_sub_count)
  have nb: "unat sz < 4294967296" by (rule unat32_bound)
  from assms(2) have reg: "entries s (block_file ?dir block) \<noteq> Some Dir"
    by (simp add: regular_def)
  have fit: "0 + ?c \<le> length data" using assms(4) cle by linarith
  then have lb: "length ?bytes = ?c" by simp
  from prog_block_quiet [OF assms(1) reg fit]
  obtain s1 where pb: "prog_block emu s block off sz data 0 =
      Inr (?emu1, s1, block + 1, 0, sz - ?cnt, ?c)"
    and e1: "entries s1 = (entries s)(block_file ?dir block \<mapsto>
        Reg (write_at ?content (unat off) ?bytes))"
    and s1: "faults s1 = []" "streams s1 = streams s"
    by auto
  have reg1: "regular (path ?emu1) s1" using assms(2) e1 by (simp add: regular_def)
  have p1: "?c + unat (sz - ?cnt) \<le> length data" using assms(4) cle n' by simp
  from prog_loop_tail [OF refl s1(1) reg1 _ p1, of "block + 1"] assms(3)
  obtain emu' s' block' where
    pl: "prog_loop ?emu1 s1 (block + 1) 0 (sz - ?cnt) data ?c =
        Some (Inr (emu', s', block', 0, 0, ?c + unat (sz - ?cnt)))"
    and r: "faults s' = []" "streams s' = streams s1" "regular ?dir s'"
      "stats emu' = stats ?emu1" "info emu' = info ?emu1" "path emu' = path ?emu1"
    and frame: "\<forall>p. (\<forall>k < unat (sz - ?cnt). p \<noteq> block_file ?dir (block + 1 + of_nat k)) \<longrightarrow>
          entries s' p = entries s1 p"
    and inside: "\<forall>j < unat (sz - ?cnt).
      j mod unat ?es < length (contents s' (block_file ?dir
                    (block + 1 + of_nat (j div unat ?es)))) \<and>
      contents s' (block_file ?dir (block + 1 + of_nat (j div unat ?es)))
        ! (j mod unat ?es) = data ! (?c + j)"
    by auto
  have step: "prog_loop emu s block off sz data 0 =
      prog_loop ?emu1 s1 (block + 1) 0 (sz - ?cnt) data ?c"
    using False pb by (subst prog_loop.simps) (simp add: word_gt_0)
  have fin: "?c + unat (sz - ?cnt) = unat sz" using n' cle by simp
  have own: "entries s' (block_file ?dir block) =
      Some (Reg (write_at ?content (unat off) ?bytes))"
  proof -
    have "\<forall>k < unat (sz - ?cnt). block_file ?dir block \<noteq> block_file ?dir (block + 1 + of_nat k)"
    proof (intro allI impI)
      fix k assume "k < unat (sz - ?cnt)"
      then have "k < 4294967295" using n' nb by simp
      then have "block + 1 + of_nat k \<noteq> block" by (rule word_succ_neq)
      then show "block_file ?dir block \<noteq> block_file ?dir (block + 1 + of_nat k)"
        by (simp add: block_file_inj)
    qed
    with frame have "entries s' (block_file ?dir block) = entries s1 (block_file ?dir block)"
      by blast
    with e1 show ?thesis by simp
  qed
  have val: "\<forall>j < unat sz.
      walk_offset ?es off sz j
        < length (contents s' (block_file ?dir (walk_block ?es block off sz j))) \<and>
      contents s' (block_file ?dir (walk_block ?es block off sz j))
        ! walk_offset ?es off sz j = data ! j"
  proof (intro allI impI)
    fix j assume j: "j < unat sz"
    show "walk_offset ?es off sz j
        < length (contents s' (block_file ?dir (walk_block ?es block off sz j))) \<and>
      contents s' (block_file ?dir (walk_block ?es block off sz j))
        ! walk_offset ?es off sz j = data ! j"
    proof (cases "j < ?c")
      case True
      from True lb have jl: "j < length ?bytes" by simp
      have b: "?bytes ! j = data ! j" using True by simp
      have w: "walk_block ?es block off sz j = block"
        "walk_offset ?es off sz j = unat off + j"
        using True by (simp_all add: walk_block_def walk_offset_def chunk0_def)
      from write_at_nth [OF jl, of "unat off" ?content] own b show ?thesis
        unfolding w by (simp add: contents_def)
    next
      case F: False
      define j' where "j' = j - ?c"
      have j': "j = ?c + j'" "j' < unat (sz - ?cnt)" using F j n' by (simp_all add: j'_def)
      have w: "walk_block ?es block off sz j = block + 1 + of_nat (j' div unat ?es)"
        "walk_offset ?es off sz j = j' mod unat ?es"
        using F by (simp_all add: walk_block_def walk_offset_def chunk0_def j'_def)
      from inside j'(2) have "j' mod unat ?es < length (contents s' (block_file ?dir
                    (block + 1 + of_nat (j' div unat ?es)))) \<and>
        contents s' (block_file ?dir (block + 1 + of_nat (j' div unat ?es)))
          ! (j' mod unat ?es) = data ! (?c + j')" by blast
      then show ?thesis unfolding w using j'(1) by simp
    qed
  qed
  show ?thesis using step pl fin r s1 val by simp
qed

lemma write_at_frame:
  assumes "i < length c" "i < off \<or> off + length bs \<le> i"
  shows "write_at c off bs ! i = c ! i"
proof (cases "bs = []")
  case True
  then show ?thesis by (simp add: write_at_def)
next
  case False
  from assms(2) show ?thesis
  proof
    assume "i < off"
    with assms(1) False show ?thesis by (simp add: write_at_def nth_append)
  next
    assume h: "off + length bs \<le> i"
    with assms(1) have oc: "off \<le> length c" by simp
    have l: "length (take off c) = off" using oc by simp
    have n1: "\<not> i < off" and n2: "\<not> i - off < length bs" using h by arith+
    have "(take off c @ bs @ drop (off + length bs) c) ! i =
        (bs @ drop (off + length bs) c) ! (i - off)"
      using n1 l by (simp add: nth_append)
    also have "\<dots> = drop (off + length bs) c ! (i - off - length bs)"
      using n2 by (simp add: nth_append)
    also have "\<dots> = c ! i" using h assms(1) by simp
    finally show ?thesis using False oc by (simp add: write_at_def)
  qed
qed

lemma length_write_at: "length c \<le> length (write_at c off bs)"
  by (auto simp: write_at_def)

lemma prog_loop_single:
  assumes "faults s = []" "entries s (block_file (path emu) block) = Some (Reg c)"
    "unat off + unat sz \<le> unat (erase_size (info emu))" "unat sz \<le> length data"
  shows "\<exists>emu' s' block' off'.
     prog_loop emu s block off sz data 0 = Some (Inr (emu', s', block', off', 0, unat sz)) \<and>
     stats emu' = stats emu \<and>
     entries s' = (entries s)(block_file (path emu) block \<mapsto>
       Reg (write_at c (unat off) (take (unat sz) data)))"
proof (cases "sz = 0")
  case True
  have "(entries s)(block_file (path emu) block \<mapsto> Reg c) = entries s"
    using assms(2) by (rule map_upd_triv)
  with True assms show ?thesis by (simp add: prog_loop_zero write_at_def)
next
  case False
  let ?es = "erase_size (info emu)"
  let ?cnt = "lfs_min (?es - off) sz"
  have ole: "off \<le> ?es" using assms(3) by (simp add: word_le_nat_alt)
  then have "unat (?es - off) = unat ?es - unat off" by (rule unat_sub)
  with assms(3) have "\<not> ?es - off < sz" by (simp add: word_less_nat_alt)
  then have cnt: "?cnt = sz" by (simp add: lfs_min_def)
  from assms(2) have reg: "entries s (block_file (path emu) block) \<noteq> Some Dir" by simp
  from prog_block_quiet [OF assms(1) reg, of 0 off sz data] assms(2,4) cnt
  obtain s1 where pb: "prog_block emu s block off sz data 0 =
      Inr (emu\<lparr>child := snprintf_x block\<rparr>, s1, block + 1, 0, 0, unat sz)"
    and e1: "entries s1 = (entries s)(block_file (path emu) block \<mapsto>
        Reg (write_at c (unat off) (take (unat sz) data)))"
    by (auto simp: contents_def)
  have "prog_loop emu s block off sz data 0 =
      prog_loop (emu\<lparr>child := snprintf_x block\<rparr>) s1 (block + 1) 0 0 data (unat sz)"
    using False pb by (subst prog_loop.simps) (simp add: word_gt_0)
  with e1 show ?thesis by (simp add: prog_loop_zero)
qed

section \<open>Reading and programming when the file store works\<close>

lemma access_valid_info:
  "info emu' = info emu \<Longrightarrow> access_valid u emu' block off sz = access_valid u emu block off sz"
  by (simp add: access_valid_def in_bounds_def)

lemma memset_zero_props:
  assumes "n \<le> length buf"
  shows "length (memset_zero buf n) = length buf" "\<forall>j < n. memset_zero buf n ! j = 0"
  using assms by (simp_all add: memset_zero_def nth_append)

lemma lfs_emubd_read_quiet:
  assumes "faults s = []" "regular (path emu) s" "read_size (info emu) \<noteq> 0"
    "erase_size (info emu) \<noteq> 0" "access_valid (read_size (info emu)) emu block off sz"
    "unat sz \<le> length buffer"
  shows "\<exists>buf' emu' s'.
     lfs_emubd_read emu s block off sz buffer = Some (Returns Zero (buf', emu', s')) \<and>
     length buf' = length buffer \<and>
     (\<forall>j < unat sz. buf' ! j =
        byte_or (contents s (block_file (path emu)
                   (walk_block (erase_size (info emu)) block off sz j)))
          (walk_offset (erase_size (info emu)) off sz j) 0)"
proof -
  let ?buf0 = "memset_zero buffer (unat sz)"
  note m = memset_zero_props [OF assms(6)]
  have l0: "unat sz \<le> length ?buf0" using m(1) assms(6) by simp
  from read_loop_walk [OF assms(1,2,4) l0, of block off]
  obtain emu' s' block' off' buf' where
    rl: "read_loop emu s block off sz ?buf0 0 =
        Some (Inr (emu', s', block', off', 0, buf', unat sz))"
    and len: "length buf' = length ?buf0"
    and val: "\<forall>j < unat sz. buf' ! j =
        byte_or (contents s (block_file (path emu)
                   (walk_block (erase_size (info emu)) block off sz j)))
          (walk_offset (erase_size (info emu)) off sz j) (?buf0 ! j)"
    by blast
  have "lfs_emubd_read emu s block off sz buffer =
      Some (Returns Zero (buf',
        emu'\<lparr>stats := (stats emu')\<lparr>read_count := read_count (stats emu') + 1\<rparr>\<rparr>, s'))"
    using assms(3,5,6) rl by (simp add: lfs_emubd_read_def)
  with len val m show ?thesis by simp
qed

text \<open>
  C3: when the file store works, an aligned read within the bounds returns 0, also
  where the artifact of a block is absent or ends before the range does; every byte
  of the range that an artifact holds is delivered, and every byte of the range that
  no artifact holds (the artifact is absent, or shorter) is zero.
\<close>

theorem read_absent_is_zero:
  assumes "faults s = []" "regular (path emu) s" "read_size (info emu) \<noteq> 0"
    "erase_size (info emu) \<noteq> 0" "access_valid (read_size (info emu)) emu block off sz"
    "unat sz \<le> length buffer"
  shows "\<exists>buf' emu' s'.
     lfs_emubd_read emu s block off sz buffer = Some (Returns Zero (buf', emu', s')) \<and>
     (\<forall>j < unat sz. buf' ! j =
        byte_or (contents s (block_file (path emu)
                   (walk_block (erase_size (info emu)) block off sz j)))
          (walk_offset (erase_size (info emu)) off sz j) 0) \<and>
     (\<forall>j < unat sz.
        length (contents s (block_file (path emu)
                  (walk_block (erase_size (info emu)) block off sz j)))
          \<le> walk_offset (erase_size (info emu)) off sz j \<longrightarrow> buf' ! j = 0)"
proof -
  from lfs_emubd_read_quiet [OF assms]
  obtain buf' emu' s' where
    r: "lfs_emubd_read emu s block off sz buffer = Some (Returns Zero (buf', emu', s'))"
    and val: "\<forall>j < unat sz. buf' ! j =
        byte_or (contents s (block_file (path emu)
                   (walk_block (erase_size (info emu)) block off sz j)))
          (walk_offset (erase_size (info emu)) off sz j) 0"
    by blast
  from val have "\<forall>j < unat sz.
        length (contents s (block_file (path emu)
                  (walk_block (erase_size (info emu)) block off sz j)))
          \<le> walk_offset (erase_size (info emu)) off sz j \<longrightarrow> buf' ! j = 0"
    by (simp add: byte_or_def)
  with r val show ?thesis by blast
qed

text \<open>
  C1: when the file store works, an aligned program within the bounds returns 0, and
  the read of the same block, offset and size that follows it returns 0 and delivers
  the programmed bytes, over as many blocks as the range spans.
\<close>

theorem read_after_prog:
  assumes "faults s = []" "regular (path emu) s" "prog_size (info emu) \<noteq> 0"
    "read_size (info emu) \<noteq> 0" "erase_size (info emu) \<noteq> 0"
    "access_valid (prog_size (info emu)) emu block off sz"
    "access_valid (read_size (info emu)) emu block off sz"
    "unat sz \<le> length data" "unat sz \<le> length buffer"
  shows "\<exists>emu1 s1.
     lfs_emubd_prog emu s block off sz data = Some (Returns Zero (emu1, s1)) \<and>
     (\<exists>buf' emu2 s2.
        lfs_emubd_read emu1 s1 block off sz buffer = Some (Returns Zero (buf', emu2, s2)) \<and>
        take (unat sz) buf' = take (unat sz) data)"
proof -
  let ?es = "erase_size (info emu)"
  from prog_loop_walk [OF assms(1,2,5,8), of block off]
  obtain emuP s1 block' off' where
    pl: "prog_loop emu s block off sz data 0 = Some (Inr (emuP, s1, block', off', 0, unat sz))"
    and q: "faults s1 = []" "regular (path emu) s1" "info emuP = info emu"
      "path emuP = path emu"
    and written: "\<forall>j < unat sz.
        walk_offset ?es off sz j
          < length (contents s1 (block_file (path emu) (walk_block ?es block off sz j))) \<and>
        contents s1 (block_file (path emu) (walk_block ?es block off sz j))
          ! walk_offset ?es off sz j = data ! j"
    by blast
  let ?emu1 = "emuP\<lparr>stats := (stats emuP)\<lparr>prog_count := prog_count (stats emuP) + 1\<rparr>\<rparr>"
  have p: "lfs_emubd_prog emu s block off sz data = Some (Returns Zero (?emu1, s1))"
    using assms(3,6) pl by (simp add: lfs_emubd_prog_def)
  have i1: "info ?emu1 = info emu" "path ?emu1 = path emu" using q by simp_all
  have h: "regular (path ?emu1) s1" "read_size (info ?emu1) \<noteq> 0"
    "erase_size (info ?emu1) \<noteq> 0"
    "access_valid (read_size (info ?emu1)) ?emu1 block off sz"
    using q assms(4,5,7) i1 by (simp_all add: access_valid_info [of ?emu1 emu])
  from lfs_emubd_read_quiet [OF q(1) h assms(9)]
  obtain buf' emu2 s2 where
    r: "lfs_emubd_read ?emu1 s1 block off sz buffer = Some (Returns Zero (buf', emu2, s2))"
    and len: "length buf' = length buffer"
    and val: "\<forall>j < unat sz. buf' ! j =
        byte_or (contents s1 (block_file (path emu) (walk_block ?es block off sz j)))
          (walk_offset ?es off sz j) 0"
    using i1 by auto
  have "take (unat sz) buf' = take (unat sz) data"
  proof (rule nth_equalityI)
    show "length (take (unat sz) buf') = length (take (unat sz) data)"
      using len assms(8,9) by simp
  next
    fix i assume "i < length (take (unat sz) buf')"
    then have i: "i < unat sz" by simp
    with val written have "buf' ! i = data ! i" by (simp add: byte_or_def)
    with i show "take (unat sz) buf' ! i = take (unat sz) data ! i" by simp
  qed
  with p r show ?thesis by blast
qed

text \<open>
  C6: when the file store works, an aligned program within the bounds of a range
  inside one block whose artifact exists returns 0; the artifact is the old one with
  the programmed bytes written over the range, no shorter than before, and its bytes
  outside the range are the old ones.  No other artifact changes.
\<close>

theorem prog_keeps_rest_of_block:
  assumes "faults s = []" "prog_size (info emu) \<noteq> 0"
    "access_valid (prog_size (info emu)) emu block off sz"
    "unat off + unat sz \<le> unat (erase_size (info emu))" "unat sz \<le> length data"
    "entries s (block_file (path emu) block) = Some (Reg c)"
  shows "\<exists>emu' s'.
     lfs_emubd_prog emu s block off sz data = Some (Returns Zero (emu', s')) \<and>
     entries s' = (entries s)(block_file (path emu) block \<mapsto>
       Reg (write_at c (unat off) (take (unat sz) data))) \<and>
     length c \<le> length (write_at c (unat off) (take (unat sz) data)) \<and>
     (\<forall>i < length c. i < unat off \<or> unat off + unat sz \<le> i \<longrightarrow>
        write_at c (unat off) (take (unat sz) data) ! i = c ! i)"
proof -
  from prog_loop_single [OF assms(1,6,4,5)]
  obtain emu' s' block' off' where
    pl: "prog_loop emu s block off sz data 0 = Some (Inr (emu', s', block', off', 0, unat sz))"
    and e: "entries s' = (entries s)(block_file (path emu) block \<mapsto>
       Reg (write_at c (unat off) (take (unat sz) data)))"
    by blast
  have p: "lfs_emubd_prog emu s block off sz data = Some (Returns Zero
      (emu'\<lparr>stats := (stats emu')\<lparr>prog_count := prog_count (stats emu') + 1\<rparr>\<rparr>, s'))"
    using assms(2,3) pl by (simp add: lfs_emubd_prog_def)
  have l: "length (take (unat sz) data) = unat sz" using assms(5) by simp
  have "\<forall>i < length c. i < unat off \<or> unat off + unat sz \<le> i \<longrightarrow>
        write_at c (unat off) (take (unat sz) data) ! i = c ! i"
    using write_at_frame [of _ c "unat off" "take (unat sz) data"] l by simp
  with p e length_write_at [of c "unat off" "take (unat sz) data"] show ?thesis by blast
qed

section \<open>Runs of the small device\<close>

lemma regular_small: "regular (path emu_small) store_short" "regular (path emu_small) store_empty"
  by (simp_all add: regular_def store_short_def store_empty_def)

lemma replicate_3: "replicate 3 x = [x, x, x]"
  by (simp add: numeral_3_eq_3)

lemma read_short_artifact:
  "lfs_emubd_read emu_small store_short 0 0 4 (replicate 4 9) =
     Some (Returns Zero ([5, 0, 0, 0],
       emu_small\<lparr>child := ''1'',
         stats := \<lparr>read_count = 1, prog_count = 0, erase_count = 0\<rparr>\<rparr>,
       store_short\<lparr>errno := Some ENOENT\<rparr>))"
  by (simp add: eval_defs store_short_def replicate_3)

theorem read_absent_is_zero_witness:
  "faults store_short = [] \<and> regular (path emu_small) store_short \<and>
   read_size (info emu_small) \<noteq> 0 \<and> erase_size (info emu_small) \<noteq> 0 \<and>
   access_valid (read_size (info emu_small)) emu_small 0 0 4 \<and>
   unat (4 :: 32 word) \<le> length (replicate 4 (9 :: byte)) \<and>
   lfs_emubd_read emu_small store_short 0 0 4 (replicate 4 9) =
     Some (Returns Zero ([5, 0, 0, 0],
       emu_small\<lparr>child := ''1'',
         stats := \<lparr>read_count = 1, prog_count = 0, erase_count = 0\<rparr>\<rparr>,
       store_short\<lparr>errno := Some ENOENT\<rparr>)) \<and>
   contents store_short (block_file (path emu_small)
      (walk_block (erase_size (info emu_small)) 0 0 4 0)) = [5] \<and>
   walk_offset (erase_size (info emu_small)) 0 4 1 = 1 \<and>
   contents store_short (block_file (path emu_small)
      (walk_block (erase_size (info emu_small)) 0 0 4 2)) = [] \<and>
   (\<exists>buf' emu' s'.
      lfs_emubd_read emu_small store_short 0 0 4 (replicate 4 9) =
        Some (Returns Zero (buf', emu', s')) \<and>
      buf' ! 0 = 5 \<and> buf' ! 1 = 0 \<and> buf' ! 2 = 0 \<and> buf' ! 3 = 0)"
proof -
  have h: "faults store_short = []" "regular (path emu_small) store_short"
    "read_size (info emu_small) \<noteq> 0" "erase_size (info emu_small) \<noteq> 0"
    "access_valid (read_size (info emu_small)) emu_small 0 0 4"
    "unat (4 :: 32 word) \<le> length (replicate 4 (9 :: byte))"
    by (simp_all add: regular_small)
      (simp_all add: store_short_def emu_small_def access_valid_def in_bounds_def)
  have w: "contents store_short (block_file (path emu_small)
      (walk_block (erase_size (info emu_small)) 0 0 4 0)) = [5]"
    "walk_offset (erase_size (info emu_small)) 0 4 1 = 1"
    "contents store_short (block_file (path emu_small)
      (walk_block (erase_size (info emu_small)) 0 0 4 2)) = []"
    by (simp_all add: walk_block_def walk_offset_def chunk0_def lfs_min_def emu_small_def
        block_file_def snprintf_x_def hex_nat.simps hex_digit_def contents_def store_short_def)
  from read_absent_is_zero [OF h] read_short_artifact
  have "\<exists>buf' emu' s'.
      lfs_emubd_read emu_small store_short 0 0 4 (replicate 4 9) =
        Some (Returns Zero (buf', emu', s')) \<and>
      buf' ! 0 = 5 \<and> buf' ! 1 = 0 \<and> buf' ! 2 = 0 \<and> buf' ! 3 = 0"
    by simp
  with h w read_short_artifact show ?thesis by blast
qed

lemma prog_over_short:
  "lfs_emubd_prog emu_small store_short 0 1 3 [7, 8, 9] =
     Some (Returns Zero
       (emu_small\<lparr>child := ''1'',
          stats := \<lparr>read_count = 0, prog_count = 1, erase_count = 0\<rparr>\<rparr>,
        store_short\<lparr>entries := [''bd/0'' \<mapsto> Reg [5, 7], ''bd/1'' \<mapsto> Reg [8, 9]],
          errno := Some ENOENT\<rparr>))"
  by (simp add: eval_defs store_short_def)

theorem read_after_prog_witness:
  "faults store_short = [] \<and> regular (path emu_small) store_short \<and>
   prog_size (info emu_small) \<noteq> 0 \<and> read_size (info emu_small) \<noteq> 0 \<and>
   erase_size (info emu_small) \<noteq> 0 \<and>
   access_valid (prog_size (info emu_small)) emu_small 0 1 3 \<and>
   access_valid (read_size (info emu_small)) emu_small 0 1 3 \<and>
   unat (3 :: 32 word) \<le> length [7 :: byte, 8, 9] \<and>
   unat (3 :: 32 word) \<le> length (replicate 3 (0 :: byte)) \<and>
   lfs_emubd_prog emu_small store_short 0 1 3 [7, 8, 9] =
     Some (Returns Zero
       (emu_small\<lparr>child := ''1'',
          stats := \<lparr>read_count = 0, prog_count = 1, erase_count = 0\<rparr>\<rparr>,
        store_short\<lparr>entries := [''bd/0'' \<mapsto> Reg [5, 7], ''bd/1'' \<mapsto> Reg [8, 9]],
          errno := Some ENOENT\<rparr>)) \<and>
   (\<exists>buf' emu2 s2.
      lfs_emubd_read
        (emu_small\<lparr>child := ''1'',
          stats := \<lparr>read_count = 0, prog_count = 1, erase_count = 0\<rparr>\<rparr>)
        (store_short\<lparr>entries := [''bd/0'' \<mapsto> Reg [5, 7], ''bd/1'' \<mapsto> Reg [8, 9]],
          errno := Some ENOENT\<rparr>) 0 1 3 (replicate 3 0) =
        Some (Returns Zero (buf', emu2, s2)) \<and>
      take (unat (3 :: 32 word)) buf' = take (unat (3 :: 32 word)) [7, 8, 9])"
proof -
  have h: "faults store_short = []" "regular (path emu_small) store_short"
    "prog_size (info emu_small) \<noteq> 0" "read_size (info emu_small) \<noteq> 0"
    "erase_size (info emu_small) \<noteq> 0"
    "access_valid (prog_size (info emu_small)) emu_small 0 1 3"
    "access_valid (read_size (info emu_small)) emu_small 0 1 3"
    "unat (3 :: 32 word) \<le> length [7 :: byte, 8, 9]"
    "unat (3 :: 32 word) \<le> length (replicate 3 (0 :: byte))"
    by (simp_all add: regular_small)
      (simp_all add: store_short_def emu_small_def access_valid_def in_bounds_def)
  from read_after_prog [OF h] prog_over_short
  have "\<exists>buf' emu2 s2.
      lfs_emubd_read
        (emu_small\<lparr>child := ''1'',
          stats := \<lparr>read_count = 0, prog_count = 1, erase_count = 0\<rparr>\<rparr>)
        (store_short\<lparr>entries := [''bd/0'' \<mapsto> Reg [5, 7], ''bd/1'' \<mapsto> Reg [8, 9]],
          errno := Some ENOENT\<rparr>) 0 1 3 (replicate 3 0) =
        Some (Returns Zero (buf', emu2, s2)) \<and>
      take (unat (3 :: 32 word)) buf' = take (unat (3 :: 32 word)) [7, 8, 9]"
    by simp
  with h prog_over_short show ?thesis by blast
qed

lemma prog_in_pair:
  "lfs_emubd_prog emu_small store_pair 0 1 1 [9] =
     Some (Returns Zero
       (emu_small\<lparr>child := ''0'',
          stats := \<lparr>read_count = 0, prog_count = 1, erase_count = 0\<rparr>\<rparr>,
        store_pair\<lparr>entries := [''bd/0'' \<mapsto> Reg [1, 9]]\<rparr>))"
  by (simp add: eval_defs store_pair_def)

theorem prog_keeps_rest_of_block_witness:
  "faults store_pair = [] \<and> prog_size (info emu_small) \<noteq> 0 \<and>
   access_valid (prog_size (info emu_small)) emu_small 0 1 1 \<and>
   unat (1 :: 32 word) + unat (1 :: 32 word) \<le> unat (erase_size (info emu_small)) \<and>
   unat (1 :: 32 word) \<le> length [9 :: byte] \<and>
   entries store_pair (block_file (path emu_small) 0) = Some (Reg [1, 2]) \<and>
   write_at [1, 2] (unat (1 :: 32 word)) (take (unat (1 :: 32 word)) [9 :: byte]) = [1, 9] \<and>
   (\<exists>emu' s'.
      lfs_emubd_prog emu_small store_pair 0 1 1 [9] = Some (Returns Zero (emu', s')) \<and>
      entries s' = (entries store_pair)(block_file (path emu_small) 0 \<mapsto> Reg [1, 9]))"
proof -
  have h: "faults store_pair = []" "prog_size (info emu_small) \<noteq> 0"
    "access_valid (prog_size (info emu_small)) emu_small 0 1 1"
    "unat (1 :: 32 word) + unat (1 :: 32 word) \<le> unat (erase_size (info emu_small))"
    "unat (1 :: 32 word) \<le> length [9 :: byte]"
    "entries store_pair (block_file (path emu_small) 0) = Some (Reg [1, 2])"
    by (simp_all add: store_pair_def emu_small_def access_valid_def in_bounds_def
        block_file_def snprintf_x_def hex_nat.simps hex_digit_def)
  have w: "write_at [1, 2] (unat (1 :: 32 word)) (take (unat (1 :: 32 word)) [9 :: byte]) =
      [1, 9]"
    by (simp add: write_at_def)
  from prog_keeps_rest_of_block [OF h] w
  have "\<exists>emu' s'.
      lfs_emubd_prog emu_small store_pair 0 1 1 [9] = Some (Returns Zero (emu', s')) \<and>
      entries s' = (entries store_pair)(block_file (path emu_small) 0 \<mapsto> Reg [1, 9])"
    by auto
  with h w show ?thesis by blast
qed

section \<open>What \<^verbatim>\<open>lfs_emubd_erase\<close> deletes\<close>

text \<open>
  When the file store works, an accepted erase returns 0 and deletes the regular
  files among the artifacts of the \<open>size div erase_size\<close> blocks from \<open>block\<close> on, and
  nothing else: an absent artifact is no error, and the offset plays no part.
\<close>

lemma erase_block_quiet:
  assumes "faults s = []"
  shows "\<exists>s'. erase_block emu s block off sz =
       Inr (emu\<lparr>child := snprintf_x block\<rparr>, s', block + 1, 0, sz - erase_size (info emu)) \<and>
     faults s' = [] \<and> streams s' = streams s \<and>
     entries s' =
       (case entries s (block_file (path emu) block) of
          Some (Reg c) \<Rightarrow> (entries s)(block_file (path emu) block := None)
        | _ \<Rightarrow> entries s)"
  using assms
  by (auto simp: erase_block_def emu_path_block stat_def unlink_def next_fault_def Let_def
      split: option.splits entry.splits)

lemma erase_loop_blocks:
  assumes "unat sz = n * unat (erase_size (info emu))" "faults s = []"
    "erase_size (info emu) \<noteq> 0"
  shows "\<exists>emu' s' block' off'.
     erase_loop emu s block off sz = Some (Inr (emu', s', block', off', 0)) \<and>
     faults s' = [] \<and> streams s' = streams s \<and> stats emu' = stats emu \<and>
     (\<forall>p. entries s' p =
        (if (\<exists>k < n. p = block_file (path emu) (block + of_nat k)) \<and>
            (\<exists>c. entries s p = Some (Reg c))
         then None else entries s p))"
  using assms
proof (induction n arbitrary: emu s block off sz)
  case 0
  then have "sz = 0" by (simp add: unat_0_iff)
  with 0 show ?case by (simp add: erase_loop_zero)
next
  case (Suc n)
  let ?es = "erase_size (info emu)"
  let ?dir = "path emu"
  let ?emu1 = "emu\<lparr>child := snprintf_x block\<rparr>"
  have es: "0 < unat ?es" using Suc.prems(3) by (simp add: unat_gt_0)
  have szn: "sz \<noteq> 0"
  proof
    assume "sz = 0"
    then have "unat sz = 0" by simp
    with Suc.prems(1) es show False by simp
  qed
  have le: "?es \<le> sz" using Suc.prems(1) by (simp add: word_le_nat_alt)
  then have n': "unat (sz - ?es) = n * unat ?es" using Suc.prems(1) by (simp add: unat_sub)
  have nb: "n < 4294967295"
  proof -
    have "Suc n * 1 \<le> Suc n * unat ?es" using es by (intro mult_le_mono) auto
    with Suc.prems(1) unat32_bound [of sz] show ?thesis by simp
  qed
  from erase_block_quiet [OF Suc.prems(2), of emu block off sz]
  obtain s1 where eb: "erase_block emu s block off sz =
      Inr (?emu1, s1, block + 1, 0, sz - ?es)"
    and s1: "faults s1 = []" "streams s1 = streams s"
    and e1: "entries s1 =
       (case entries s (block_file ?dir block) of
          Some (Reg c) \<Rightarrow> (entries s)(block_file ?dir block := None)
        | _ \<Rightarrow> entries s)"
    by blast
  from Suc.IH [of "sz - ?es" ?emu1 s1 "block + 1" 0] n' s1(1) Suc.prems(3)
  obtain emu' s' block' off' where
    el: "erase_loop ?emu1 s1 (block + 1) 0 (sz - ?es) = Some (Inr (emu', s', block', off', 0))"
    and r: "faults s' = []" "streams s' = streams s1" "stats emu' = stats ?emu1"
    and ent: "\<forall>p. entries s' p =
        (if (\<exists>k < n. p = block_file ?dir (block + 1 + of_nat k)) \<and>
            (\<exists>c. entries s1 p = Some (Reg c))
         then None else entries s1 p)"
    by auto
  have step: "erase_loop emu s block off sz = erase_loop ?emu1 s1 (block + 1) 0 (sz - ?es)"
    using szn eb by (subst erase_loop.simps) (simp add: word_gt_0)
  have own: "\<forall>k < n. block_file ?dir block \<noteq> block_file ?dir (block + 1 + of_nat k)"
  proof (intro allI impI)
    fix k assume "k < n"
    with nb have "k < 4294967295" by simp
    then have "block + 1 + of_nat k \<noteq> block" by (rule word_succ_neq)
    then show "block_file ?dir block \<noteq> block_file ?dir (block + 1 + of_nat k)"
      by (simp add: block_file_inj)
  qed
  have val: "\<forall>p. entries s' p =
        (if (\<exists>k < Suc n. p = block_file ?dir (block + of_nat k)) \<and>
            (\<exists>c. entries s p = Some (Reg c))
         then None else entries s p)"
  proof
    fix p
    show "entries s' p =
        (if (\<exists>k < Suc n. p = block_file ?dir (block + of_nat k)) \<and>
            (\<exists>c. entries s p = Some (Reg c))
         then None else entries s p)"
    proof -
      have sp: "entries s' p =
          (if (\<exists>k < n. p = block_file ?dir (block + 1 + of_nat k)) \<and>
              (\<exists>c. entries s1 p = Some (Reg c))
           then None else entries s1 p)"
        using ent by (rule spec)
      have e1p: "entries s1 p =
          (case entries s (block_file ?dir block) of
             Some (Reg c) \<Rightarrow> (entries s)(block_file ?dir block := None)
           | _ \<Rightarrow> entries s) p"
        by (simp only: e1)
      show ?thesis
      proof (cases "p = block_file ?dir block")
        case True
        have in0: "\<exists>k < Suc n. p = block_file ?dir (block + of_nat k)"
          using True by (intro exI [of _ 0]) simp
        have nin: "\<not> (\<exists>k < n. p = block_file ?dir (block + 1 + of_nat k))"
        proof
          assume "\<exists>k < n. p = block_file ?dir (block + 1 + of_nat k)"
          then obtain k where k: "k < n" and pk: "p = block_file ?dir (block + 1 + of_nat k)"
            by blast
          from own k have "block_file ?dir block \<noteq> block_file ?dir (block + 1 + of_nat k)"
            by blast
          with True pk show False by simp
        qed
        have a: "entries s' p = entries s1 p" unfolding sp by (rule if_not_P) (use nin in blast)
        have b: "entries s1 p = (if \<exists>c. entries s p = Some (Reg c) then None else entries s p)"
          unfolding e1p using True by (simp split: option.splits entry.splits)
        show ?thesis unfolding a b using in0 by simp
      next
        case False
        have eq: "(\<exists>k < Suc n. p = block_file ?dir (block + of_nat k)) \<longleftrightarrow>
            (\<exists>k < n. p = block_file ?dir (block + 1 + of_nat k))"
        proof
          assume "\<exists>k < Suc n. p = block_file ?dir (block + of_nat k)"
          then obtain k where k: "k < Suc n" and pk: "p = block_file ?dir (block + of_nat k)"
            by blast
          have "k \<noteq> 0"
          proof
            assume "k = 0"
            with pk have "p = block_file ?dir block" by simp
            with False show False by simp
          qed
          then obtain k' where k': "k = Suc k'" by (cases k) auto
          have "block + of_nat k = block + 1 + of_nat k'" unfolding k' by (simp add: add.assoc)
          with pk have "p = block_file ?dir (block + 1 + of_nat k')" by simp
          moreover from k k' have "k' < n" by simp
          ultimately show "\<exists>k < n. p = block_file ?dir (block + 1 + of_nat k)" by blast
        next
          assume "\<exists>k < n. p = block_file ?dir (block + 1 + of_nat k)"
          then obtain k where k: "k < n" and pk: "p = block_file ?dir (block + 1 + of_nat k)"
            by blast
          have "block + 1 + of_nat k = block + of_nat (Suc k)" by (simp add: add.assoc)
          with pk have "p = block_file ?dir (block + of_nat (Suc k))" by simp
          moreover from k have "Suc k < Suc n" by simp
          ultimately show "\<exists>k < Suc n. p = block_file ?dir (block + of_nat k)" by blast
        qed
        have b: "entries s1 p = entries s p"
          unfolding e1p using False by (simp split: option.splits entry.splits)
        show ?thesis unfolding sp b eq by simp
      qed
    qed
  qed
  show ?case using step el r s1 val by simp
qed

lemma erase_from_block:
  assumes "faults s = []" "erase_size (info emu) \<noteq> 0"
    "access_valid (erase_size (info emu)) emu block off sz"
  shows "\<exists>emu' s'.
     lfs_emubd_erase emu s block off sz = Some (Returns Zero (emu', s')) \<and>
     (\<forall>p. entries s' p =
        (if (\<exists>k < unat sz div unat (erase_size (info emu)).
               p = block_file (path emu) (block + of_nat k)) \<and>
            (\<exists>c. entries s p = Some (Reg c))
         then None else entries s p))"
proof -
  let ?es = "erase_size (info emu)"
  from assms(3) have "unat sz mod unat ?es = 0"
    by (simp add: access_valid_def aligned_nat)
  then have n: "unat sz = (unat sz div unat ?es) * unat ?es" by auto
  from erase_loop_blocks [OF n assms(1,2), of block off]
  obtain emu' s' block' off' where
    el: "erase_loop emu s block off sz = Some (Inr (emu', s', block', off', 0))"
    and ent: "\<forall>p. entries s' p =
        (if (\<exists>k < unat sz div unat ?es. p = block_file (path emu) (block + of_nat k)) \<and>
            (\<exists>c. entries s p = Some (Reg c))
         then None else entries s p)"
    by blast
  have "lfs_emubd_erase emu s block off sz = Some (Returns Zero
      (emu'\<lparr>stats := (stats emu')\<lparr>erase_count := erase_count (stats emu') + 1\<rparr>\<rparr>, s'))"
    using assms(2,3) el by (simp add: lfs_emubd_erase_def)
  with ent show ?thesis by blast
qed

text \<open>
  C5 does not hold of the code: the loop of \<^verbatim>\<open>lfs_emubd_erase\<close> never reads \<^verbatim>\<open>off\<close>
  (by \<open>erase_from_block\<close> the blocks that are erased are the same for every offset
  that is accepted: they are the blocks of the address range when the offset is 0,
  and other blocks when it is not).  With blocks of 512 bytes, the erase of block 0 at
  offset 512 with size 512 has the address range from 512 to 1024, which is block 1;
  the call is accepted, deletes the artifact \<^verbatim>\<open>0\<close> of block 0 and leaves the artifact
  \<^verbatim>\<open>1\<close> of block 1.
\<close>

theorem erase_offset_ignored:
  "lfs_emubd_erase emu_2k store_two 0 512 512 =
     Some (Returns Zero
       (emu_2k\<lparr>child := ''0'',
          stats := \<lparr>read_count = 0, prog_count = 0, erase_count = 1\<rparr>\<rparr>,
        store_two\<lparr>entries := (entries store_two)(''bd/0'' := None)\<rparr>)) \<and>
   emu_path (emu_2k\<lparr>child := snprintf_x 0\<rparr>) = ''bd/0'' \<and>
   emu_path (emu_2k\<lparr>child := snprintf_x 1\<rparr>) = ''bd/1'' \<and>
   entries store_two ''bd/0'' = Some (Reg [1, 2, 3]) \<and>
   ((entries store_two)(''bd/0'' := None)) ''bd/0'' = None \<and>
   ((entries store_two)(''bd/0'' := None)) ''bd/1'' = Some (Reg [4, 5, 6])"
  by (simp add: eval_defs store_two_def)

end
